theory Spec2Isabelle
  imports Main "HOL-Library.Monad_Syntax" "HOL-Library.Char_ord" "HOL-Library.List_Lexorder"
begin

section \<open>std::string operations\<close>

text \<open>
  A \<open>std::string\<close> is a byte sequence: \<open>string\<close> (a \<open>char list\<close>), with \<open>length\<close>
  counting bytes.  The position \<open>std::string::npos\<close> (not found, or "to the end" as a count)
  is \<open>None\<close>; the one place where the source computes \<open>npos + 1\<close> writes the wrap-around
  to 0 out.  A member function that throws \<open>std::out_of_range\<close> returns \<open>None\<close> for the
  throw.
\<close>

text \<open>\<open>find_in cs nd i\<close>: the first position of \<open>nd\<close> in \<open>cs\<close>, counted from \<open>i\<close>.\<close>

fun find_in :: "string \<Rightarrow> string \<Rightarrow> nat \<Rightarrow> nat option" where
  "find_in [] nd i = (if nd = [] then Some i else None)"
| "find_in (c # cs) nd i =
     (if take (length nd) (c # cs) = nd then Some i else find_in cs nd (Suc i))"

text \<open>\<open>s.find(nd, pos)\<close>: the lowest position \<open>\<ge> pos\<close> where \<open>nd\<close> occurs, or npos.\<close>

definition str_find :: "string \<Rightarrow> string \<Rightarrow> nat \<Rightarrow> nat option" where
  "str_find s nd pos = (if pos \<le> length s then find_in (drop pos s) nd pos else None)"

text \<open>\<open>s.substr(pos, n)\<close>; throws when \<open>pos > size()\<close>.\<close>

definition substr :: "string \<Rightarrow> nat \<Rightarrow> nat \<Rightarrow> string option" where
  "substr s pos n = (if pos \<le> length s then Some (take n (drop pos s)) else None)"

text \<open>\<open>s.substr(pos)\<close>: to the end of the string.\<close>

definition substr_from :: "string \<Rightarrow> nat \<Rightarrow> string option" where
  "substr_from s pos = (if pos \<le> length s then Some (drop pos s) else None)"

text \<open>\<open>s.replace(pos, n, r)\<close>; throws when \<open>pos > size()\<close>.\<close>

definition str_replace :: "string \<Rightarrow> nat \<Rightarrow> nat \<Rightarrow> string \<Rightarrow> string option" where
  "str_replace s pos n r =
     (if pos \<le> length s then Some (take pos s @ r @ drop (pos + n) s) else None)"

text \<open>\<open>s.erase(pos, n)\<close> with the count \<open>n\<close> possibly npos; throws when \<open>pos > size()\<close>.\<close>

definition erase :: "string \<Rightarrow> nat \<Rightarrow> nat option \<Rightarrow> string option" where
  "erase s pos n =
     (if pos \<le> length s
      then Some (take pos s @ (case n of None \<Rightarrow> [] | Some k \<Rightarrow> drop (pos + k) s))
      else None)"

text \<open>\<open>s.find_first_not_of(cs)\<close> and \<open>s.find_last_not_of(cs)\<close>.\<close>

definition find_first_not_of :: "string \<Rightarrow> string \<Rightarrow> nat option" where
  "find_first_not_of s cs =
     (let k = length (takeWhile (\<lambda>c. c \<in> set cs) s)
      in if k < length s then Some k else None)"

definition find_last_not_of :: "string \<Rightarrow> string \<Rightarrow> nat option" where
  "find_last_not_of s cs =
     (let k = length (takeWhile (\<lambda>c. c \<in> set cs) (rev s))
      in if k < length s then Some (length s - 1 - k) else None)"

text \<open>Formatted output of an unsigned and of a signed integer (\<open>operator<<\<close>).\<close>

definition digit_char :: "nat \<Rightarrow> char" where
  "digit_char d = char_of (of_char CHR ''0'' + d)"

fun show_nat :: "nat \<Rightarrow> string" where
  "show_nat n = (if n < 10 then [digit_char n] else show_nat (n div 10) @ [digit_char (n mod 10)])"

declare show_nat.simps [simp del]

definition show_int :: "int \<Rightarrow> string" where
  "show_int i = (if i < 0 then CHR ''-'' # show_nat (nat (- i)) else show_nat (nat i))"

text \<open>Reading a decimal numeral back, as a client would read the header value.\<close>

definition decimal_value :: "string \<Rightarrow> nat" where
  "decimal_value ds = foldl (\<lambda>acc c. 10 * acc + (of_char c - of_char CHR ''0'')) 0 ds"

definition CRLF :: string where
  "CRLF = [CHR 0x0D, CHR 0x0A]"

subsection \<open>Input streams\<close>

text \<open>
  \<open>std::getline(stream, line, delim)\<close> called until it fails: every call returns the
  characters up to the next delimiter, which it consumes; at the end of the input a call
  succeeds only if it extracted a character.  \<open>getlines_from cur delim s\<close> is the list of the
  lines read, \<open>cur\<close> the part of the current line already read.
\<close>

fun getlines_from :: "string \<Rightarrow> char \<Rightarrow> string \<Rightarrow> string list" where
  "getlines_from cur delim [] = (if cur = [] then [] else [cur])"
| "getlines_from cur delim (c # cs) =
     (if c = delim then cur # getlines_from [] delim cs
      else getlines_from (cur @ [c]) delim cs)"

definition getlines :: "string \<Rightarrow> string list" where
  "getlines s = getlines_from [] CHR 0x0A s"

text \<open>\<open>std::isspace\<close> in the C locale, and \<open>stream >> word\<close>: skip white space, then read
  up to the next white space.  The result is the word and the rest of the stream.\<close>

definition isspace :: "char \<Rightarrow> bool" where
  "isspace c = (c \<in> set [CHR '' '', CHR 0x09, CHR 0x0A, CHR 0x0B, CHR 0x0C, CHR 0x0D])"

definition extract_word :: "string \<Rightarrow> string \<times> string" where
  "extract_word s =
     (let s' = dropWhile isspace s
      in (takeWhile (\<lambda>c. \<not> isspace c) s', dropWhile (\<lambda>c. \<not> isspace c) s'))"

subsection \<open>Facts about \<open>find\<close>\<close>

lemma find_in_Some:
  "find_in cs nd i = Some j \<Longrightarrow>
     i \<le> j \<and> (j - i) + length nd \<le> length cs \<and> take (length nd) (drop (j - i) cs) = nd"
proof (induction cs arbitrary: i)
  case Nil
  then show ?case by (simp split: if_splits)
next
  case (Cons c cs)
  show ?case
  proof (cases "take (length nd) (c # cs) = nd")
    case True
    with Cons.prems have "j = i" by simp
    moreover have "length (take (length nd) (c # cs)) \<le> length (c # cs)"
      by simp
    with True have "length nd \<le> length (c # cs)" by simp
    ultimately show ?thesis using True by simp
  next
    case False
    with Cons.prems have r: "find_in cs nd (Suc i) = Some j" by simp
    from Cons.IH[OF r] have a: "Suc i \<le> j" and b: "(j - Suc i) + length nd \<le> length cs"
      and c: "take (length nd) (drop (j - Suc i) cs) = nd" by auto
    from a have e: "j - i = Suc (j - Suc i)" by simp
    show ?thesis using a b c by (simp add: e)
  qed
qed

lemma find_in_None:
  "find_in cs nd i = None \<Longrightarrow> k \<le> length cs \<Longrightarrow> take (length nd) (drop k cs) \<noteq> nd"
proof (induction cs arbitrary: i k)
  case Nil
  then show ?case by (auto split: if_splits)
next
  case (Cons c cs)
  then show ?case by (cases k) (auto split: if_splits)
qed

lemma find_in_first:
  "find_in cs nd i = Some j \<Longrightarrow> k < j - i \<Longrightarrow> take (length nd) (drop k cs) \<noteq> nd"
proof (induction cs arbitrary: i k)
  case Nil
  then show ?case by (auto split: if_splits)
next
  case (Cons c cs)
  show ?case
  proof (cases "take (length nd) (c # cs) = nd")
    case True
    with Cons.prems show ?thesis by simp
  next
    case False
    with Cons.prems have r: "find_in cs nd (Suc i) = Some j" by simp
    show ?thesis
    proof (cases k)
      case 0
      with False show ?thesis by simp
    next
      case (Suc k')
      with Cons.prems have "k' < j - Suc i" by simp
      from Cons.IH[OF r this] Suc show ?thesis by simp
    qed
  qed
qed

lemma str_find_Some:
  assumes "str_find s nd pos = Some j"
  shows "pos \<le> j" and "j + length nd \<le> length s" and "take (length nd) (drop j s) = nd"
proof -
  from assms have p: "pos \<le> length s" and f: "find_in (drop pos s) nd pos = Some j"
    by (auto simp: str_find_def split: if_splits)
  from find_in_Some[OF f] have a: "pos \<le> j" and b: "(j - pos) + length nd \<le> length (drop pos s)"
    and c: "take (length nd) (drop (j - pos) (drop pos s)) = nd" by auto
  show "pos \<le> j" by (rule a)
  show "j + length nd \<le> length s" using a b p by simp
  show "take (length nd) (drop j s) = nd" using a c by simp
qed

lemma str_find_None:
  assumes "str_find s nd pos = None" and "pos \<le> k" and "k \<le> length s"
  shows "take (length nd) (drop k s) \<noteq> nd"
proof -
  from assms have f: "find_in (drop pos s) nd pos = None"
    by (auto simp: str_find_def split: if_splits)
  have "take (length nd) (drop (k - pos) (drop pos s)) \<noteq> nd"
    by (rule find_in_None[OF f]) (use assms in simp)
  with assms show ?thesis by simp
qed

lemma str_find_first:
  assumes "str_find s nd pos = Some j" and "pos \<le> k" and "k < j"
  shows "take (length nd) (drop k s) \<noteq> nd"
proof -
  from assms have f: "find_in (drop pos s) nd pos = Some j"
    by (auto simp: str_find_def split: if_splits)
  have "take (length nd) (drop (k - pos) (drop pos s)) \<noteq> nd"
    by (rule find_in_first[OF f]) (use assms in simp)
  with assms show ?thesis by simp
qed

lemma str_find_occurs:
  assumes "pos \<le> k" and "k \<le> length s" and "take (length nd) (drop k s) = nd"
  shows "\<exists>j. str_find s nd pos = Some j \<and> pos \<le> j \<and> j \<le> k"
proof (cases "str_find s nd pos")
  case None
  from str_find_None[OF None assms(1,2)] assms(3) show ?thesis by simp
next
  case (Some j)
  have "j \<le> k"
  proof (rule ccontr)
    assume "\<not> j \<le> k"
    then have "k < j" by simp
    from str_find_first[OF Some assms(1) this] assms(3) show False by simp
  qed
  with Some str_find_Some(1)[OF Some] show ?thesis by simp
qed

lemma drop_takeWhile_length: "drop (length (takeWhile P xs)) xs = dropWhile P xs"
  by (induction xs) simp_all

section \<open>LessonLoader: the markdown renderer\<close>

subsection \<open>Code blocks and inline code\<close>

text \<open>
  The trimming idiom of the renderer, \<open>s.erase(0, s.find_first_not_of(ws))\<close> followed by
  \<open>s.erase(s.find_last_not_of(ws) + 1)\<close>.  When \<open>find_last_not_of\<close> returns npos, the
  position \<open>npos + 1\<close> wraps around to 0.
\<close>

definition trim :: "string \<Rightarrow> string \<Rightarrow> string option" where
  "trim s ws = do {
     s1 \<leftarrow> erase s 0 (find_first_not_of s ws);
     erase s1 (case find_last_not_of s1 ws of None \<Rightarrow> 0 | Some i \<Rightarrow> i + 1) None
   }"

text \<open>
  The body of the first loop of \<open>LessonLoader::processCodeBlocks\<close>, from the language
  specifier to \<open>codeHtml\<close>, for the fences found at \<open>start\<close> and \<open>end\<close>.  The test
  \<open>newlinePos < end\<close> is false for npos.
\<close>

definition codeBlockHtml :: "string \<Rightarrow> nat \<Rightarrow> nat \<Rightarrow> string option" where
  "codeBlockHtml html start end' = do {
     let langStart = start + 3;
     let newlinePos = str_find html [CHR 0x0A] langStart;
     let unlabelled = do { c \<leftarrow> substr html langStart (end' - langStart); Some ([], c) };
     (language, codeContent) \<leftarrow>
       (case newlinePos of
          None \<Rightarrow> unlabelled
        | Some nl \<Rightarrow>
            if nl < end'
            then do {
              l \<leftarrow> substr html langStart (nl - langStart);
              l' \<leftarrow> trim l [CHR '' '', CHR 0x09];
              c \<leftarrow> substr html (nl + 1) (end' - nl - 1);
              Some (l', c)
            }
            else unlabelled);
     codeContent' \<leftarrow> trim codeContent [CHR '' '', CHR 0x09, CHR 0x0D, CHR 0x0A];
     Some (if language = ''cpp'' \<or> language = ''c++''
           then ''<div class=\"code-example\"><pre><code class=\"language-cpp\">'' @ codeContent'
                @ ''</code></pre></div>''
           else ''<div class=\"code-example\"><pre><code>'' @ codeContent'
                @ ''</code></pre></div>'')
   }"

lemma str_replace_Some:
  "str_replace s pos n r = Some s' \<Longrightarrow> pos \<le> length s \<and> s' = take pos s @ r @ drop (pos + n) s"
  by (auto simp: str_replace_def split: if_splits)

lemma substr_Some:
  "substr s pos n = Some t \<Longrightarrow> pos \<le> length s \<and> t = take n (drop pos s)"
  by (auto simp: substr_def split: if_splits)

text \<open>The first loop: \<open>while ((pos = html.find("```", pos)) != npos)\<close>.\<close>

function codeBlockLoop :: "string \<Rightarrow> nat \<Rightarrow> string option" where
  "codeBlockLoop html pos =
     (case str_find html ''```'' pos of
        None \<Rightarrow> Some html
      | Some start \<Rightarrow>
          (case str_find html ''```'' (start + 3) of
             None \<Rightarrow> Some html
           | Some end' \<Rightarrow>
               (case codeBlockHtml html start end' of
                  None \<Rightarrow> None
                | Some codeHtml \<Rightarrow>
                    (case str_replace html start (end' - start + 3) codeHtml of
                       None \<Rightarrow> None
                     | Some html' \<Rightarrow> codeBlockLoop html' (start + length codeHtml)))))"
  by pat_completeness auto
termination
proof (relation "measure (\<lambda>(html, pos). length html - pos)", goal_cases)
  case 1
  show ?case by simp
next
  case (2 html pos start end' codeHtml html')
  have l3: "length ''```'' = 3" by simp
  from str_find_Some(1)[OF 2(1)] have a: "pos \<le> start" .
  from str_find_Some(1,2)[OF 2(2)] have b: "start + 3 \<le> end'" and c: "end' + 3 \<le> length html"
    unfolding l3 by simp_all
  from str_replace_Some[OF 2(4)]
  have h: "html' = take start html @ codeHtml @ drop (start + (end' - start + 3)) html" by simp
  from b have e: "start + (end' - start + 3) = end' + 3" by simp
  from a b c have "length html' - (start + length codeHtml) = length html - (end' + 3)"
    unfolding h e by simp
  with a b c show ?case by simp
qed

declare codeBlockLoop.simps [simp del]

text \<open>
  The test of the second loop, \<open>pos > 0 && html.substr(pos - 1, 6) == "</code>"\<close>, with its
  count of 6 and its seven-character literal.
\<close>

definition insideCodeBlock :: "string \<Rightarrow> nat \<Rightarrow> bool option" where
  "insideCodeBlock html pos =
     (if pos > 0 then do { s \<leftarrow> substr html (pos - 1) 6; Some (s = ''</code>'') }
      else Some False)"

text \<open>The second loop: \<open>while ((pos = html.find("`", pos)) != npos)\<close>.\<close>

function inlineCodeLoop :: "string \<Rightarrow> nat \<Rightarrow> string option" where
  "inlineCodeLoop html pos0 =
     (case str_find html ''`'' pos0 of
        None \<Rightarrow> Some html
      | Some pos \<Rightarrow>
          (case insideCodeBlock html pos of
             None \<Rightarrow> None
           | Some True \<Rightarrow> inlineCodeLoop html (pos + 1)
           | Some False \<Rightarrow>
               (case str_find html ''`'' (pos + 1) of
                  None \<Rightarrow> Some html
                | Some end' \<Rightarrow>
                    (case substr html (pos + 1) (end' - pos - 1) of
                       None \<Rightarrow> None
                     | Some code \<Rightarrow>
                         (let codeHtml = ''<code>'' @ code @ ''</code>''
                          in case str_replace html pos (end' - pos + 1) codeHtml of
                               None \<Rightarrow> None
                             | Some html' \<Rightarrow> inlineCodeLoop html' (pos + length codeHtml))))))"
  by pat_completeness auto
termination
proof (relation "measure (\<lambda>(html, pos). length html - pos)", goal_cases)
  case 1
  show ?case by simp
next
  case (2 html pos0 pos b)
  have l1: "length ''`'' = 1" by simp
  from str_find_Some(1,2)[OF 2(1)] have "pos0 \<le> pos" and "pos + 1 \<le> length html"
    unfolding l1 by simp_all
  then show ?case by simp
next
  case (3 html pos0 pos b end' code codeHtml html')
  have l1: "length ''`'' = 1" by simp
  from str_find_Some(1)[OF 3(1)] have a: "pos0 \<le> pos" .
  from str_find_Some(1,2)[OF 3(4)] have b: "pos + 1 \<le> end'" and c: "end' + 1 \<le> length html"
    unfolding l1 by simp_all
  from str_replace_Some[OF 3(7)]
  have h: "html' = take pos html @ codeHtml @ drop (pos + (end' - pos + 1)) html" by simp
  from b have e: "pos + (end' - pos + 1) = end' + 1" by simp
  from a b c have "length html' - (pos + length codeHtml) = length html - (end' + 1)"
    unfolding h e by simp
  with a b c show ?case by simp
qed

declare inlineCodeLoop.simps [simp del]

text \<open>\<open>LessonLoader::processCodeBlocks\<close>.\<close>

definition processCodeBlocks :: "string \<Rightarrow> string option" where
  "processCodeBlocks markdown = do {
     html \<leftarrow> codeBlockLoop markdown 0;
     inlineCodeLoop html 0
   }"

subsection \<open>Bold text\<close>

text \<open>
  The loop of \<open>LessonLoader::processBoldText\<close> leaves \<open>pos\<close> at the \<open></strong>\<close> it has
  just written, so the rest of the text behind \<open>pos\<close> may get longer; what gets smaller is
  the number of asterisks behind \<open>pos\<close>.
\<close>

lemma drop_length_append: "drop (length xs) (xs @ ys) = ys"
  by simp

definition stars_from :: "string \<Rightarrow> nat \<Rightarrow> nat" where
  "stars_from s pos = length (filter (\<lambda>c. c = CHR ''*'') (drop pos s))"

lemma stars_from_split:
  assumes "pos \<le> k"
  shows "stars_from s pos = length (filter (\<lambda>c. c = CHR ''*'') (take (k - pos) (drop pos s))) + stars_from s k"
proof -
  have "(k - pos) + pos = k" using assms by simp
  then have "drop (k - pos) (drop pos s) = drop k s" by (simp only: drop_drop)
  moreover have "drop pos s = take (k - pos) (drop pos s) @ drop (k - pos) (drop pos s)"
    by (simp only: append_take_drop_id)
  ultimately have "drop pos s = take (k - pos) (drop pos s) @ drop k s" by simp
  then have "filter (\<lambda>c. c = CHR ''*'') (drop pos s)
     = filter (\<lambda>c. c = CHR ''*'') (take (k - pos) (drop pos s)) @ filter (\<lambda>c. c = CHR ''*'') (drop k s)"
    by (metis filter_append)
  then show ?thesis by (simp add: stars_from_def)
qed

lemma stars_from_decrease:
  assumes p: "pos \<le> start" and k: "start < k" and l: "start < length s" and c: "s ! start = CHR ''*''"
  shows "stars_from s k < stars_from s pos"
proof -
  from p k have pk: "pos \<le> k" by simp
  have "s ! start \<in> set (take (k - pos) (drop pos s))"
  proof -
    have "start - pos < length s - pos" and "start - pos < k - pos" using p k l by arith+
    then have "start - pos < length (take (k - pos) (drop pos s))" by simp
    moreover have "take (k - pos) (drop pos s) ! (start - pos) = s ! start" using p k l by simp
    ultimately show ?thesis by (metis nth_mem)
  qed
  with c have "filter (\<lambda>c. c = CHR ''*'') (take (k - pos) (drop pos s)) \<noteq> []"
    by (auto simp: filter_empty_conv)
  then have "0 < length (filter (\<lambda>c. c = CHR ''*'') (take (k - pos) (drop pos s)))" by simp
  with stars_from_split[OF pk, of s] show ?thesis by simp
qed

lemma str_find_nth:
  assumes "str_find s nd pos = Some j" and "nd \<noteq> []"
  shows "j < length s" and "s ! j = hd nd"
proof -
  from str_find_Some(2)[OF assms(1)] assms(2) show j: "j < length s"
    by (cases nd) simp_all
  from str_find_Some(3)[OF assms(1)] have "take (length nd) (drop j s) = nd" .
  then have "hd (take (length nd) (drop j s)) = hd nd" by simp
  moreover have "hd (take (length nd) (drop j s)) = s ! j"
    using j assms(2) by (cases nd) (simp_all add: hd_drop_conv_nth)
  ultimately show "s ! j = hd nd" by simp
qed

text \<open>The loop: \<open>while ((pos = html.find("**", pos)) != npos)\<close>.\<close>

function boldLoop :: "string \<Rightarrow> nat \<Rightarrow> string option" where
  "boldLoop html pos =
     (case str_find html ''**'' pos of
        None \<Rightarrow> Some html
      | Some start \<Rightarrow>
          (case str_find html ''**'' (start + 2) of
             None \<Rightarrow> Some html
           | Some end' \<Rightarrow>
               (case substr html (start + 2) (end' - start - 2) of
                  None \<Rightarrow> None
                | Some boldText \<Rightarrow>
                    (case str_replace html start (end' - start + 2)
                            (''<strong>'' @ boldText @ ''</strong>'') of
                       None \<Rightarrow> None
                     | Some html' \<Rightarrow> boldLoop html' (start + 8 + length boldText)))))"
  by pat_completeness auto
termination
proof (relation "measure (\<lambda>(html, pos). stars_from html pos)", goal_cases)
  case 1
  show ?case by simp
next
  case (2 html pos start end' boldText html')
  have l2: "length ''**'' = 2" by simp
  from str_find_Some(1)[OF 2(1)] have a: "pos \<le> start" .
  from str_find_nth[OF 2(1)] have s: "start < length html" and st: "html ! start = CHR ''*''"
    by simp_all
  from str_find_Some(1,2)[OF 2(2)] have b: "start + 2 \<le> end'" and c: "end' + 2 \<le> length html"
    unfolding l2 by simp_all
  from substr_Some[OF 2(3)] have bt: "boldText = take (end' - start - 2) (drop (start + 2) html)"
    by simp
  with b c have lb: "length boldText = end' - start - 2" by simp
  from str_replace_Some[OF 2(4)]
  have h: "html' = take start html @ (''<strong>'' @ boldText @ ''</strong>'')
                   @ drop (start + (end' - start + 2)) html" by simp
  from b have e: "start + (end' - start + 2) = end' + 2" by simp
  let ?front = "take start html @ ''<strong>'' @ boldText"
  have len: "length ?front = start + 8 + length boldText" using s by simp
  have "html' = ?front @ (''</strong>'' @ drop (end' + 2) html)" unfolding h e by simp
  moreover have "drop (length ?front) (?front @ (''</strong>'' @ drop (end' + 2) html))
      = ''</strong>'' @ drop (end' + 2) html" by (rule drop_length_append)
  ultimately have "drop (length ?front) html' = ''</strong>'' @ drop (end' + 2) html"
    by (simp only:)
  then have "drop (start + 8 + length boldText) html' = ''</strong>'' @ drop (end' + 2) html"
    unfolding len .
  then have "stars_from html' (start + 8 + length boldText) = stars_from html (end' + 2)"
    by (simp add: stars_from_def)
  moreover have "stars_from html (end' + 2) < stars_from html pos"
    by (rule stars_from_decrease[OF a _ s st]) (use b in simp)
  ultimately show ?case by simp
qed

declare boldLoop.simps [simp del]

text \<open>\<open>LessonLoader::processBoldText\<close>.\<close>

definition processBoldText :: "string \<Rightarrow> string option" where
  "processBoldText markdown = boldLoop markdown 0"

subsection \<open>Tables\<close>

text \<open>
  One cell of \<open>LessonLoader::processTableRow\<close>: trimmed, and when it contains \<open>**\<close>, put
  through a loop that is the loop of \<open>processBoldText\<close> statement by statement (with
  \<open>start\<close> for \<open>pos\<close>, from 0).
\<close>

text \<open>The tags that \<open>processTableRow\<close> writes around a row and around a cell.\<close>

definition trOpen :: string where
  "trOpen = ''<tr>''"

definition trClose :: string where
  "trClose = ''</tr>''"

definition tdOpen :: string where
  "tdOpen = ''<td>''"

definition tdClose :: string where
  "tdClose = ''</td>''"

definition processCell :: "string \<Rightarrow> string option" where
  "processCell cell0 = do {
     cell \<leftarrow> trim cell0 [CHR '' '', CHR 0x09];
     cell' \<leftarrow> (if str_find cell ''**'' 0 \<noteq> None then boldLoop cell 0 else Some cell);
     Some (tdOpen @ cell' @ tdClose)
   }"

fun processCells :: "string list \<Rightarrow> string option" where
  "processCells [] = Some []"
| "processCells (cell # cells) = do {
     td \<leftarrow> processCell cell;
     tds \<leftarrow> processCells cells;
     Some (td @ tds)
   }"

text \<open>\<open>LessonLoader::processTableRow\<close>: the row is read cell by cell with
  \<open>std::getline(cellStream, cell, '|')\<close>; the first cell read is skipped.\<close>

definition processTableRow :: "string \<Rightarrow> string option" where
  "processTableRow row = do {
     tds \<leftarrow> processCells (drop 1 (getlines_from [] CHR ''|'' row));
     Some (trOpen @ tds @ trClose)
   }"

text \<open>The two tests of \<open>LessonLoader::processTables\<close> on a line.\<close>

definition isTableRow :: "string \<Rightarrow> bool" where
  "isTableRow currentLine =
     (currentLine \<noteq> [] \<and> hd currentLine = CHR ''|'' \<and> last currentLine = CHR ''|'')"

definition isSeparator :: "string \<Rightarrow> bool" where
  "isSeparator nextLine = list_all (\<lambda>c. c = CHR ''|'' \<or> c = CHR ''-'' \<or> c = CHR '' '') nextLine"

definition tableOpen :: string where
  "tableOpen = ''<div class=\"table-container\"><table class=\"course-table\">''"

definition tableClose :: string where
  "tableClose = ''</table></div>''"

text \<open>
  The loop of \<open>processTables\<close> over the lines from index \<open>i\<close> on, with the flag \<open>inTable\<close>
  and the output written so far; at the end of the lines an open table is closed.  After a
  table row, a following separator line is skipped (\<open>i++; continue\<close>).
\<close>

fun tableLoop :: "string list \<Rightarrow> bool \<Rightarrow> string \<Rightarrow> string option" where
  "tableLoop [] inTable result = Some (result @ (if inTable then tableClose else []))"
| "tableLoop (currentLine # rest) inTable result =
     (if isTableRow currentLine
      then do {
        processedRow \<leftarrow> processTableRow currentLine;
        let result' = result @ (if \<not> inTable then tableOpen else []) @ processedRow;
        (case rest of
           [] \<Rightarrow> tableLoop [] True result'
         | nextLine # rest' \<Rightarrow>
             if isSeparator nextLine then tableLoop rest' True result'
             else tableLoop rest True result')
      }
      else tableLoop rest False
             (result @ (if inTable then tableClose else []) @ currentLine @ [CHR 0x0A]))"

declare tableLoop.simps [simp del]

text \<open>\<open>LessonLoader::processTables\<close>.\<close>

definition processTables :: "string \<Rightarrow> string option" where
  "processTables markdown = tableLoop (getlines markdown) False []"

subsection \<open>Regular expressions\<close>

text \<open>
  The passes for headings, lists and links call \<open>std::regex_replace\<close> with ECMAScript
  patterns, three of them compiled with \<open>std::regex::multiline\<close>.  The patterns use literal
  characters, \<open>.\<close>, \<open>\s\<close>, \<open>\d\<close>, \<open>\w\<close>, negated brackets, \<open>^\<close> and \<open>$\<close>, greedy \<open>+\<close> and \<open>*\<close>, the
  lazy \<open>*?\<close> and capture groups; \<open>rx\<close> is that fragment.  A line terminator is a line feed
  or a carriage return; \<open>.\<close> matches every other character.
\<close>

datatype cclass = Lit char | AnyChar | Space | Digit | Word | NoneOf "char list"

datatype rx = Atom cclass | Bol | Eol | Seq rx rx | Star rx | LazyStar rx | Group nat rx

definition is_line_terminator :: "char \<Rightarrow> bool" where
  "is_line_terminator c = (c = CHR 0x0A \<or> c = CHR 0x0D)"

definition isdigit :: "char \<Rightarrow> bool" where
  "isdigit c = (of_char CHR ''0'' \<le> (of_char c :: nat) \<and> (of_char c :: nat) \<le> of_char CHR ''9'')"

definition isalnum :: "char \<Rightarrow> bool" where
  "isalnum c =
     (isdigit c
      \<or> (of_char CHR ''A'' \<le> (of_char c :: nat) \<and> (of_char c :: nat) \<le> of_char CHR ''Z'')
      \<or> (of_char CHR ''a'' \<le> (of_char c :: nat) \<and> (of_char c :: nat) \<le> of_char CHR ''z''))"

fun cc_match :: "cclass \<Rightarrow> char \<Rightarrow> bool" where
  "cc_match (Lit a) c = (c = a)"
| "cc_match AnyChar c = (\<not> is_line_terminator c)"
| "cc_match Space c = isspace c"
| "cc_match Digit c = isdigit c"
| "cc_match Word c = (isalnum c \<or> c = CHR ''_'')"
| "cc_match (NoneOf cs) c = (c \<notin> set cs)"

text \<open>
  The matcher runs on a state: the character before the current position (none at the
  start of the text), the text from the current position on (\<open>remaining\<close>), and the captures set so far.
  \<open>rx_match r st\<close> lists the states in which a match of \<open>r\<close> from \<open>st\<close> can end, in the order
  in which a backtracking matcher tries them: a greedy star prefers one more iteration, a
  lazy star prefers to stop.  An iteration of a star that consumes nothing is not repeated.
\<close>

record mstate =
  prevChar :: "char option"
  remaining :: string
  captures :: "nat \<rightharpoonup> string"

function rx_match :: "rx \<Rightarrow> mstate \<Rightarrow> mstate list" where
  "rx_match (Atom cc) st =
     (case remaining st of
        [] \<Rightarrow> []
      | c # cs \<Rightarrow> if cc_match cc c then [st\<lparr>prevChar := Some c, remaining := cs\<rparr>] else [])"
| "rx_match Bol st =
     (case prevChar st of
        None \<Rightarrow> [st]
      | Some c \<Rightarrow> if is_line_terminator c then [st] else [])"
| "rx_match Eol st =
     (case remaining st of
        [] \<Rightarrow> [st]
      | c # cs \<Rightarrow> if is_line_terminator c then [st] else [])"
| "rx_match (Seq r1 r2) st = concat (map (rx_match r2) (rx_match r1 st))"
| "rx_match (Star r) st =
     concat (map (\<lambda>st'. if length (remaining st') < length (remaining st) then rx_match (Star r) st' else [])
               (rx_match r st))
     @ [st]"
| "rx_match (LazyStar r) st =
     st # concat (map (\<lambda>st'. if length (remaining st') < length (remaining st)
                              then rx_match (LazyStar r) st' else [])
                    (rx_match r st))"
| "rx_match (Group n r) st =
     map (\<lambda>st'. st'\<lparr>captures := (captures st')(n \<mapsto> take (length (remaining st) - length (remaining st')) (remaining st))\<rparr>)
       (rx_match r st)"
  by pat_completeness auto
termination
  by (relation "inv_image (less_than <*lex*> less_than) (\<lambda>(r, st). (size r, length (remaining st)))")
     auto

declare rx_match.simps [simp del]

text \<open>\<open>r+\<close>, and a literal string followed by \<open>r\<close>.\<close>

definition Plus :: "rx \<Rightarrow> rx" where
  "Plus r = Seq r (Star r)"

fun lits :: "string \<Rightarrow> rx \<Rightarrow> rx" where
  "lits [] r = r"
| "lits (c # cs) r = Seq (Atom (Lit c)) (lits cs r)"

text \<open>
  \<open>std::regex_search\<close>: the first position, from the current one on, where the pattern
  matches, with the match the matcher tries first there.  The result is the text skipped,
  the state at the end of the match and the matched text.
\<close>

fun rx_search :: "rx \<Rightarrow> string \<Rightarrow> char option \<Rightarrow> string \<Rightarrow> (string \<times> mstate \<times> string) option" where
  "rx_search r skipped p [] =
     (case rx_match r \<lparr>prevChar = p, remaining = [], captures = Map.empty\<rparr> of
        [] \<Rightarrow> None
      | st # sts \<Rightarrow> Some (skipped, st, []))"
| "rx_search r skipped p (c # cs) =
     (case rx_match r \<lparr>prevChar = p, remaining = c # cs, captures = Map.empty\<rparr> of
        [] \<Rightarrow> rx_search r (skipped @ [c]) (Some c) cs
      | st # sts \<Rightarrow> Some (skipped, st, take (length (c # cs) - length (remaining st)) (c # cs)))"

text \<open>A format string as its pieces: text, \<open>$n\<close> and \<open>$&\<close>.\<close>

datatype fmt_item = Txt string | Cap nat | Whole

fun rx_format :: "fmt_item list \<Rightarrow> mstate \<Rightarrow> string \<Rightarrow> string" where
  "rx_format [] st m = []"
| "rx_format (Txt t # f) st m = t @ rx_format f st m"
| "rx_format (Cap n # f) st m = (case captures st n of None \<Rightarrow> [] | Some g \<Rightarrow> g) @ rx_format f st m"
| "rx_format (Whole # f) st m = m @ rx_format f st m"

lemma rx_match_suffix:
  "st' \<in> set (rx_match r st) \<Longrightarrow> \<exists>u. remaining st = u @ remaining st'"
proof (induction r st arbitrary: st' rule: rx_match.induct)
  case (1 cc st)
  show ?case
  proof (cases "remaining st")
    case Nil
    with 1 show ?thesis by (simp add: rx_match.simps(1))
  next
    case (Cons c cs)
    with 1 have "remaining st' = cs" by (simp add: rx_match.simps(1) split: if_splits)
    with Cons have "remaining st = [c] @ remaining st'" by simp
    then show ?thesis by blast
  qed
next
  case (2 st)
  then have "st' = st" by (simp add: rx_match.simps(2) split: option.splits if_splits)
  then show ?case by simp
next
  case (3 st)
  then have "st' = st" by (simp add: rx_match.simps(3) split: list.splits if_splits)
  then show ?case by simp
next
  case (4 r1 r2 st)
  from 4(3) obtain m where m: "m \<in> set (rx_match r1 st)" and s: "st' \<in> set (rx_match r2 m)"
    by (auto simp: rx_match.simps(4))
  from 4(1)[OF m] obtain u where u: "remaining st = u @ remaining m" by blast
  from 4(2)[OF m s] obtain v where v: "remaining m = v @ remaining st'" by blast
  from u v have "remaining st = (u @ v) @ remaining st'" by simp
  then show ?case by blast
next
  case (5 r st)
  have e: "rx_match (Star r) st =
     concat (map (\<lambda>st'. if length (remaining st') < length (remaining st) then rx_match (Star r) st' else [])
               (rx_match r st)) @ [st]"
    by (rule rx_match.simps(5))
  from 5(3) consider "st' = st"
    | m where "m \<in> set (rx_match r st)" "length (remaining m) < length (remaining st)"
        "st' \<in> set (rx_match (Star r) m)"
    unfolding e by (auto split: if_splits)
  then show ?case
  proof cases
    case 1
    then show ?thesis by simp
  next
    case 2
    from 5(1)[OF 2(1)] obtain u where u: "remaining st = u @ remaining m" by blast
    from 5(2)[OF 2(1) 2(2) 2(3)] obtain v where v: "remaining m = v @ remaining st'" by blast
    from u v have "remaining st = (u @ v) @ remaining st'" by simp
    then show ?thesis by blast
  qed
next
  case (6 r st)
  have e: "rx_match (LazyStar r) st =
     st # concat (map (\<lambda>st'. if length (remaining st') < length (remaining st)
                              then rx_match (LazyStar r) st' else [])
                    (rx_match r st))"
    by (rule rx_match.simps(6))
  from 6(3) consider "st' = st"
    | m where "m \<in> set (rx_match r st)" "length (remaining m) < length (remaining st)"
        "st' \<in> set (rx_match (LazyStar r) m)"
    unfolding e by (auto split: if_splits)
  then show ?case
  proof cases
    case 1
    then show ?thesis by simp
  next
    case 2
    from 6(1)[OF 2(1)] obtain u where u: "remaining st = u @ remaining m" by blast
    from 6(2)[OF 2(1) 2(2) 2(3)] obtain v where v: "remaining m = v @ remaining st'" by blast
    from u v have "remaining st = (u @ v) @ remaining st'" by simp
    then show ?thesis by blast
  qed
next
  case (7 n r st)
  then obtain m where m: "m \<in> set (rx_match r st)" and "remaining st' = remaining m"
    by (auto simp: rx_match.simps(7))
  with 7(1)[OF m] show ?case by simp
qed

lemma rx_search_suffix:
  "rx_search r skipped p s = Some (pre, st, m) \<Longrightarrow>
     skipped @ s = pre @ m @ remaining st"
proof (induction s arbitrary: skipped p)
  case Nil
  then obtain sts where a: "rx_match r \<lparr>prevChar = p, remaining = [], captures = Map.empty\<rparr> = st # sts"
    and b: "pre = skipped" "m = []"
    by (auto split: list.splits)
  from a have "st \<in> set (rx_match r \<lparr>prevChar = p, remaining = [], captures = Map.empty\<rparr>)" by simp
  from rx_match_suffix[OF this] have "remaining st = []" by simp
  with b show ?case by simp
next
  case (Cons c cs)
  show ?case
  proof (cases "rx_match r \<lparr>prevChar = p, remaining = c # cs, captures = Map.empty\<rparr>")
    case Nil
    with Cons.prems have "rx_search r (skipped @ [c]) (Some c) cs = Some (pre, st, m)" by simp
    from Cons.IH[OF this] show ?thesis by simp
  next
    case (Cons st0 sts)
    with Cons.prems have e: "pre = skipped" "st = st0"
      "m = take (length (c # cs) - length (remaining st)) (c # cs)" by auto
    from Cons e have "st \<in> set (rx_match r \<lparr>prevChar = p, remaining = c # cs, captures = Map.empty\<rparr>)" by simp
    from rx_match_suffix[OF this] obtain u where u: "c # cs = u @ remaining st" by auto
    then have "length (c # cs) - length (remaining st) = length u"
      by (metis add_diff_cancel_right' length_append)
    with e(3) u have "m = u" by (metis append_eq_conv_conj)
    with u e show ?thesis by simp
  qed
qed

text \<open>
  \<open>std::regex_replace\<close>, in a run in which the matcher completes: every match, found from
  the end of the one before, is replaced by the format; the text between the matches is
  copied.  After an empty match the iterator moves on by one character; no pattern of the
  renderer matches the empty string.  The call that can fail for want of stack is
  \<open>regex_replace_within\<close>, below.
\<close>

function regex_replace_from :: "rx \<Rightarrow> fmt_item list \<Rightarrow> char option \<Rightarrow> string \<Rightarrow> string" where
  "regex_replace_from r fmt p s =
     (case rx_search r [] p s of
        None \<Rightarrow> s
      | Some (pre, st, m) \<Rightarrow>
          pre @ rx_format fmt st m
          @ (if m = []
             then (case remaining st of
                     [] \<Rightarrow> []
                   | c # cs \<Rightarrow> c # regex_replace_from r fmt (Some c) cs)
             else regex_replace_from r fmt (Some (last m)) (remaining st)))"
  by pat_completeness auto
termination
proof (relation "measure (\<lambda>(r, fmt, p, s). length s)", goal_cases)
  case 1
  show ?case by simp
next
  case (2 r fmt p s x pre y st m c cs)
  from rx_search_suffix[of r "[]" p s pre st m] 2 have "s = pre @ m @ remaining st" by simp
  then have "length s = length (pre @ m @ remaining st)" by (rule arg_cong)
  then have "length s = length pre + length m + length (remaining st)" by simp
  with 2 show ?case by simp
next
  case (3 r fmt p s x pre y st m)
  from rx_search_suffix[of r "[]" p s pre st m] 3 have "s = pre @ m @ remaining st" by simp
  then have "length s = length (pre @ m @ remaining st)" by (rule arg_cong)
  then have "length s = length pre + length m + length (remaining st)" by simp
  with 3 show ?case by simp
qed

declare regex_replace_from.simps [simp del]

definition regex_replace :: "string \<Rightarrow> rx \<Rightarrow> fmt_item list \<Rightarrow> string" where
  "regex_replace s r fmt = regex_replace_from r fmt None s"

text \<open>
  The captures of a \<open>std::sregex_iterator\<close> loop that collects \<open>match[n]\<close> of every match.
\<close>

function regex_captures_from :: "rx \<Rightarrow> nat \<Rightarrow> char option \<Rightarrow> string \<Rightarrow> string list" where
  "regex_captures_from r n p s =
     (case rx_search r [] p s of
        None \<Rightarrow> []
      | Some (pre, st, m) \<Rightarrow>
          (case captures st n of None \<Rightarrow> [] | Some g \<Rightarrow> g)
          # (if m = []
             then (case remaining st of
                     [] \<Rightarrow> []
                   | c # cs \<Rightarrow> regex_captures_from r n (Some c) cs)
             else regex_captures_from r n (Some (last m)) (remaining st)))"
  by pat_completeness auto
termination
proof (relation "measure (\<lambda>(r, n, p, s). length s)", goal_cases)
  case 1
  show ?case by simp
next
  case (2 r n p s x pre y st m c cs)
  from rx_search_suffix[of r "[]" p s pre st m] 2 have "s = pre @ m @ remaining st" by simp
  then have "length s = length (pre @ m @ remaining st)" by (rule arg_cong)
  then have "length s = length pre + length m + length (remaining st)" by simp
  with 2 show ?case by simp
next
  case (3 r n p s x pre y st m)
  from rx_search_suffix[of r "[]" p s pre st m] 3 have "s = pre @ m @ remaining st" by simp
  then have "length s = length (pre @ m @ remaining st)" by (rule arg_cong)
  then have "length s = length pre + length m + length (remaining st)" by simp
  with 3 show ?case by simp
qed

declare regex_captures_from.simps [simp del]

text \<open>A lower bound on the length of a match: a pattern whose bound is positive matches
  no empty string.\<close>

fun rx_min :: "rx \<Rightarrow> nat" where
  "rx_min (Atom cc) = 1"
| "rx_min Bol = 0"
| "rx_min Eol = 0"
| "rx_min (Seq r1 r2) = rx_min r1 + rx_min r2"
| "rx_min (Star r) = 0"
| "rx_min (LazyStar r) = 0"
| "rx_min (Group n r) = rx_min r"

subsection \<open>Headings, lists and links\<close>

text \<open>\<open>LessonLoader::processHeaders\<close>: the patterns \<open>^#\s+(.+)$\<close> to \<open>^####\s+(.+)$\<close>.\<close>

definition headerRegex :: "string \<Rightarrow> rx" where
  "headerRegex hashes =
     Seq Bol (lits hashes (Seq (Plus (Atom Space)) (Seq (Group 1 (Plus (Atom AnyChar))) Eol)))"

definition processHeaders :: "string \<Rightarrow> string" where
  "processHeaders markdown =
     (let html = markdown;
          html = regex_replace html (headerRegex ''#'') [Txt ''<h1>'', Cap 1, Txt ''</h1>''];
          html = regex_replace html (headerRegex ''##'') [Txt ''<h2>'', Cap 1, Txt ''</h2>''];
          html = regex_replace html (headerRegex ''###'') [Txt ''<h3>'', Cap 1, Txt ''</h3>''];
          html = regex_replace html (headerRegex ''####'') [Txt ''<h4>'', Cap 1, Txt ''</h4>'']
      in html)"

text \<open>\<open>LessonLoader::processLists\<close>: the patterns \<open>^-\s+(.+)$\<close>, \<open>(<li>.*?</li>\s*)+\<close> and
  \<open>^\d+\.\s+(.+)$\<close>.\<close>

definition ulRegex :: rx where
  "ulRegex = Seq Bol (lits ''-'' (Seq (Plus (Atom Space)) (Seq (Group 1 (Plus (Atom AnyChar))) Eol)))"

definition ulWrapRegex :: rx where
  "ulWrapRegex =
     Plus (Group 1 (lits ''<li>'' (Seq (LazyStar (Atom AnyChar))
                                    (lits ''</li>'' (Star (Atom Space))))))"

definition olRegex :: rx where
  "olRegex =
     Seq Bol (Seq (Plus (Atom Digit))
       (lits ''.'' (Seq (Plus (Atom Space)) (Seq (Group 1 (Plus (Atom AnyChar))) Eol))))"

definition processLists :: "string \<Rightarrow> string" where
  "processLists markdown =
     (let html = markdown;
          html = regex_replace html ulRegex [Txt ''<li>'', Cap 1, Txt ''</li>''];
          html = regex_replace html ulWrapRegex [Txt ''<ul>'', Whole, Txt ''</ul>''];
          html = regex_replace html olRegex [Txt ''<li>'', Cap 1, Txt ''</li>'']
      in html)"

text \<open>\<open>LessonLoader::processLinks\<close>: the pattern \<open>\[([^\]]+)\]\(([^)]+)\)\<close>.\<close>

definition linkRegex :: rx where
  "linkRegex =
     lits ''['' (Seq (Group 1 (Plus (Atom (NoneOf '']''))))
       (lits '']('' (Seq (Group 2 (Plus (Atom (NoneOf '')''))))
          (Atom (Lit CHR '')'')))))"

definition processLinks :: "string \<Rightarrow> string" where
  "processLinks markdown =
     regex_replace markdown linkRegex [Txt ''<a href=\"'', Cap 2, Txt ''\">'', Cap 1, Txt ''</a>'']"

subsection \<open>Title and tags\<close>

text \<open>\<open>LessonLoader::extractTitle\<close>: \<open>std::regex_search\<close> with the pattern \<open>^#\s+(.+)$\<close>, and
  \<open>LessonLoader::extractTags\<close>: every match of \<open>#(\w+)\<close>.\<close>

definition extractTitle :: "string \<Rightarrow> string" where
  "extractTitle markdown =
     (case rx_search (headerRegex ''#'') [] None markdown of
        None \<Rightarrow> ''Untitled Lesson''
      | Some (pre, st, m) \<Rightarrow> (case captures st 1 of None \<Rightarrow> [] | Some g \<Rightarrow> g))"

definition tagRegex :: rx where
  "tagRegex = lits ''#'' (Group 1 (Plus (Atom Word)))"

definition extractTags :: "string \<Rightarrow> string list" where
  "extractTags markdown = regex_captures_from tagRegex 1 None markdown"

subsection \<open>The pipeline\<close>

text \<open>
  \<open>LessonLoader::markdownToHtml\<close>: the six passes in the source's order, in a run in which
  every call of the library's matcher completes.  The run in which the matcher has a stack
  of a given depth is \<open>markdownToHtml_within\<close>, below.
\<close>

definition markdownToHtml :: "string \<Rightarrow> string option" where
  "markdownToHtml markdown = do {
     let html = markdown;
     let html = processHeaders html;
     html \<leftarrow> processCodeBlocks html;
     html \<leftarrow> processBoldText html;
     let html = processLists html;
     let html = processLinks html;
     html \<leftarrow> processTables html;
     Some html
   }"

subsection \<open>The matcher on a bounded stack\<close>

text \<open>
  A call of \<open>std::regex_replace\<close> can fail.  The matcher of the library recurses once for
  every step of a match, so a repetition that runs over a long stretch of text needs a
  stack as deep as the stretch is long; a match that needs more than the platform gives
  ends the program, and an implementation that counts its steps throws \<open>std::regex_error\<close>
  (\<open>error_stack\<close>, \<open>error_complexity\<close>) instead.  The renderer catches neither.  How deep
  the matcher may recurse is not in the source; it is the parameter \<open>d\<close> of the definitions
  below.

  \<open>rx_match_within d r st\<close> is \<open>rx_match r st\<close> computed with recursion no deeper than \<open>d\<close>:
  the list of end states when that depth is enough for every alternative the matcher
  tries, and \<open>None\<close> when one of them needs more.  \<open>collect\<close> runs the matcher on each state
  of a list in turn and fails with the first that fails.
\<close>

fun collect :: "('a \<Rightarrow> 'b list option) \<Rightarrow> 'a list \<Rightarrow> 'b list option" where
  "collect f [] = Some []"
| "collect f (x # xs) =
     (case f x of
        None \<Rightarrow> None
      | Some ys \<Rightarrow> (case collect f xs of None \<Rightarrow> None | Some zs \<Rightarrow> Some (ys @ zs)))"

fun rx_match_within :: "nat \<Rightarrow> rx \<Rightarrow> mstate \<Rightarrow> mstate list option" where
  "rx_match_within 0 r st = None"
| "rx_match_within (Suc d) (Atom cc) st = Some (rx_match (Atom cc) st)"
| "rx_match_within (Suc d) Bol st = Some (rx_match Bol st)"
| "rx_match_within (Suc d) Eol st = Some (rx_match Eol st)"
| "rx_match_within (Suc d) (Seq r1 r2) st =
     (case rx_match_within d r1 st of
        None \<Rightarrow> None
      | Some sts \<Rightarrow> collect (rx_match_within d r2) sts)"
| "rx_match_within (Suc d) (Star r) st =
     (case rx_match_within d r st of
        None \<Rightarrow> None
      | Some sts \<Rightarrow>
          (case collect (\<lambda>st'. if length (remaining st') < length (remaining st)
                                then rx_match_within d (Star r) st' else Some []) sts of
             None \<Rightarrow> None
           | Some further \<Rightarrow> Some (further @ [st])))"
| "rx_match_within (Suc d) (LazyStar r) st =
     (case rx_match_within d r st of
        None \<Rightarrow> None
      | Some sts \<Rightarrow>
          (case collect (\<lambda>st'. if length (remaining st') < length (remaining st)
                                then rx_match_within d (LazyStar r) st' else Some []) sts of
             None \<Rightarrow> None
           | Some further \<Rightarrow> Some (st # further)))"
| "rx_match_within (Suc d) (Group n r) st =
     (case rx_match_within d r st of
        None \<Rightarrow> None
      | Some sts \<Rightarrow>
          Some (map (\<lambda>st'. st'\<lparr>captures := (captures st')(n \<mapsto> take (length (remaining st) - length (remaining st')) (remaining st))\<rparr>)
                  sts))"

text \<open>\<open>std::regex_search\<close> on the bounded stack: \<open>None\<close> when an attempt fails for want of
  depth, \<open>Some None\<close> when the pattern matches nowhere.\<close>

fun rx_search_within :: "nat \<Rightarrow> rx \<Rightarrow> string \<Rightarrow> char option \<Rightarrow> string
    \<Rightarrow> (string \<times> mstate \<times> string) option option" where
  "rx_search_within d r skipped p [] =
     (case rx_match_within d r \<lparr>prevChar = p, remaining = [], captures = Map.empty\<rparr> of
        None \<Rightarrow> None
      | Some [] \<Rightarrow> Some None
      | Some (st # sts) \<Rightarrow> Some (Some (skipped, st, [])))"
| "rx_search_within d r skipped p (c # cs) =
     (case rx_match_within d r \<lparr>prevChar = p, remaining = c # cs, captures = Map.empty\<rparr> of
        None \<Rightarrow> None
      | Some [] \<Rightarrow> rx_search_within d r (skipped @ [c]) (Some c) cs
      | Some (st # sts) \<Rightarrow>
          Some (Some (skipped, st, take (length (c # cs) - length (remaining st)) (c # cs))))"

lemma collect_sound:
  assumes "collect f xs = Some ys" and "\<And>x y. x \<in> set xs \<Longrightarrow> f x = Some y \<Longrightarrow> y = g x"
  shows "ys = concat (map g xs)"
  using assms
proof (induction xs arbitrary: ys)
  case Nil
  then show ?case by simp
next
  case (Cons x xs)
  from Cons.prems(1) obtain y zs where y: "f x = Some y" and zs: "collect f xs = Some zs"
    and e: "ys = y @ zs"
    by (auto split: option.splits)
  from Cons.prems(2)[OF _ y] have "y = g x" by simp
  moreover from Cons.IH[OF zs] Cons.prems(2) have "zs = concat (map g xs)" by simp
  ultimately show ?case using e by simp
qed

lemma collect_mono:
  assumes "collect f xs = Some ys" and "\<And>x y. x \<in> set xs \<Longrightarrow> f x = Some y \<Longrightarrow> f' x = Some y"
  shows "collect f' xs = Some ys"
  using assms
proof (induction xs arbitrary: ys)
  case Nil
  then show ?case by simp
next
  case (Cons x xs)
  from Cons.prems(1) obtain y zs where y: "f x = Some y" and zs: "collect f xs = Some zs"
    and e: "ys = y @ zs"
    by (auto split: option.splits)
  from Cons.prems(2)[OF _ y] have "f' x = Some y" by simp
  moreover from Cons.IH[OF zs] Cons.prems(2) have "collect f' xs = Some zs" by simp
  ultimately show ?case using e by simp
qed

lemma collect_Some:
  assumes "\<And>x. x \<in> set xs \<Longrightarrow> f x = Some (g x)"
  shows "collect f xs = Some (concat (map g xs))"
  using assms by (induction xs) simp_all

lemma collect_None:
  assumes "x \<in> set xs" and "f x = None"
  shows "collect f xs = None"
  using assms by (induction xs) (auto split: option.splits)

text \<open>What the bounded matcher returns is what the matcher returns.\<close>

lemma rx_match_within_sound:
  "rx_match_within d r st = Some sts \<Longrightarrow> sts = rx_match r st"
proof (induction d arbitrary: r st sts)
  case 0
  then show ?case by simp
next
  case (Suc d)
  show ?case
  proof (cases r)
    case (Atom cc)
    with Suc.prems show ?thesis by simp
  next
    case Bol
    with Suc.prems show ?thesis by simp
  next
    case Eol
    with Suc.prems show ?thesis by simp
  next
    case (Seq r1 r2)
    with Suc.prems obtain ms where a: "rx_match_within d r1 st = Some ms"
      and b: "collect (rx_match_within d r2) ms = Some sts"
      by (auto split: option.splits)
    from Suc.IH[OF a] have m: "ms = rx_match r1 st" .
    from collect_sound[OF b, of "rx_match r2"] Suc.IH
    have "sts = concat (map (rx_match r2) ms)" by blast
    with m show ?thesis unfolding Seq by (simp add: rx_match.simps(4))
  next
    case (Star r')
    let ?f = "\<lambda>st'. if length (remaining st') < length (remaining st)
                     then rx_match_within d (Star r') st' else Some []"
    let ?g = "\<lambda>st'. if length (remaining st') < length (remaining st)
                     then rx_match (Star r') st' else []"
    from Suc.prems Star obtain ms further where a: "rx_match_within d r' st = Some ms"
      and b: "collect ?f ms = Some further" and e: "sts = further @ [st]"
      by (auto split: option.splits)
    from Suc.IH[OF a] have m: "ms = rx_match r' st" .
    have "further = concat (map ?g ms)"
    proof (rule collect_sound[OF b])
      fix x y assume "?f x = Some y"
      then show "y = ?g x" using Suc.IH[of "Star r'" x y] by (auto split: if_splits)
    qed
    with m e show ?thesis unfolding Star by (simp add: rx_match.simps(5))
  next
    case (LazyStar r')
    let ?f = "\<lambda>st'. if length (remaining st') < length (remaining st)
                     then rx_match_within d (LazyStar r') st' else Some []"
    let ?g = "\<lambda>st'. if length (remaining st') < length (remaining st)
                     then rx_match (LazyStar r') st' else []"
    from Suc.prems LazyStar obtain ms further where a: "rx_match_within d r' st = Some ms"
      and b: "collect ?f ms = Some further" and e: "sts = st # further"
      by (auto split: option.splits)
    from Suc.IH[OF a] have m: "ms = rx_match r' st" .
    have "further = concat (map ?g ms)"
    proof (rule collect_sound[OF b])
      fix x y assume "?f x = Some y"
      then show "y = ?g x" using Suc.IH[of "LazyStar r'" x y] by (auto split: if_splits)
    qed
    with m e show ?thesis unfolding LazyStar by (simp add: rx_match.simps(6))
  next
    case (Group n r')
    with Suc.prems obtain ms where a: "rx_match_within d r' st = Some ms"
      and e: "sts = map (\<lambda>st'. st'\<lparr>captures := (captures st')(n \<mapsto> take (length (remaining st) - length (remaining st')) (remaining st))\<rparr>) ms"
      by (auto split: option.splits)
    from Suc.IH[OF a] e show ?thesis unfolding Group by (simp add: rx_match.simps(7))
  qed
qed

text \<open>A deeper stack changes no result.\<close>

lemma rx_match_within_Suc:
  "rx_match_within d r st = Some sts \<Longrightarrow> rx_match_within (Suc d) r st = Some sts"
proof (induction d arbitrary: r st sts)
  case 0
  then show ?case by simp
next
  case (Suc d)
  show ?case
  proof (cases r)
    case (Atom cc)
    with Suc.prems show ?thesis by simp
  next
    case Bol
    with Suc.prems show ?thesis by simp
  next
    case Eol
    with Suc.prems show ?thesis by simp
  next
    case (Seq r1 r2)
    with Suc.prems obtain ms where a: "rx_match_within d r1 st = Some ms"
      and b: "collect (rx_match_within d r2) ms = Some sts"
      by (auto split: option.splits)
    from Suc.IH[OF a] have a': "rx_match_within (Suc d) r1 st = Some ms" .
    from collect_mono[OF b, of "rx_match_within (Suc d) r2"] Suc.IH
    have "collect (rx_match_within (Suc d) r2) ms = Some sts" by blast
    with a' show ?thesis unfolding Seq by simp
  next
    case (Star r')
    let ?f = "\<lambda>k st'. if length (remaining st') < length (remaining st)
                     then rx_match_within k (Star r') st' else Some []"
    from Suc.prems Star obtain ms further where a: "rx_match_within d r' st = Some ms"
      and b: "collect (?f d) ms = Some further" and e: "sts = further @ [st]"
      by (auto split: option.splits)
    from Suc.IH[OF a] have a': "rx_match_within (Suc d) r' st = Some ms" .
    have "collect (?f (Suc d)) ms = Some further"
    proof (rule collect_mono[OF b])
      fix x y assume "?f d x = Some y"
      then show "?f (Suc d) x = Some y" using Suc.IH[of "Star r'" x y] by (auto split: if_splits)
    qed
    with a' e show ?thesis unfolding Star by simp
  next
    case (LazyStar r')
    let ?f = "\<lambda>k st'. if length (remaining st') < length (remaining st)
                     then rx_match_within k (LazyStar r') st' else Some []"
    from Suc.prems LazyStar obtain ms further where a: "rx_match_within d r' st = Some ms"
      and b: "collect (?f d) ms = Some further" and e: "sts = st # further"
      by (auto split: option.splits)
    from Suc.IH[OF a] have a': "rx_match_within (Suc d) r' st = Some ms" .
    have "collect (?f (Suc d)) ms = Some further"
    proof (rule collect_mono[OF b])
      fix x y assume "?f d x = Some y"
      then show "?f (Suc d) x = Some y" using Suc.IH[of "LazyStar r'" x y]
        by (auto split: if_splits)
    qed
    with a' e show ?thesis unfolding LazyStar by simp
  next
    case (Group n r')
    with Suc.prems obtain ms where a: "rx_match_within d r' st = Some ms"
      and e: "sts = map (\<lambda>st'. st'\<lparr>captures := (captures st')(n \<mapsto> take (length (remaining st) - length (remaining st')) (remaining st))\<rparr>) ms"
      by (auto split: option.splits)
    from Suc.IH[OF a] e show ?thesis unfolding Group by simp
  qed
qed

lemma rx_match_within_mono:
  assumes "d \<le> d'" and "rx_match_within d r st = Some sts"
  shows "rx_match_within d' r st = Some sts"
  using assms by (induction rule: dec_induct) (simp_all only: rx_match_within_Suc)

text \<open>Every match has a depth that is enough for it.\<close>

lemma enough_for_all:
  assumes "\<And>x. x \<in> set xs \<Longrightarrow> \<exists>d::nat. P d x"
    and "\<And>x d d'. P d x \<Longrightarrow> d \<le> d' \<Longrightarrow> P d' x"
  shows "\<exists>d. \<forall>x \<in> set xs. P d x"
  using assms(1)
proof (induction xs)
  case Nil
  show ?case by simp
next
  case (Cons x xs)
  from Cons.prems[of x] obtain d1 where d1: "P d1 x" by auto
  from Cons.IH Cons.prems obtain d2 where d2: "\<forall>y \<in> set xs. P d2 y" by auto
  from d1 have "P (max d1 d2) x" by (rule assms(2)) simp
  moreover from d2 have "\<forall>y \<in> set xs. P (max d1 d2) y" by (auto intro: assms(2))
  ultimately have "\<forall>y \<in> set (x # xs). P (max d1 d2) y" by simp
  then show ?case by (rule exI)
qed

lemma rx_match_within_enough:
  "\<exists>d. rx_match_within d r st = Some (rx_match r st)"
proof (induction r st rule: rx_match.induct)
  case (1 cc st)
  have "rx_match_within (Suc 0) (Atom cc) st = Some (rx_match (Atom cc) st)" by simp
  then show ?case by (rule exI)
next
  case (2 st)
  have "rx_match_within (Suc 0) Bol st = Some (rx_match Bol st)" by simp
  then show ?case by (rule exI)
next
  case (3 st)
  have "rx_match_within (Suc 0) Eol st = Some (rx_match Eol st)" by simp
  then show ?case by (rule exI)
next
  case (4 r1 r2 st)
  from 4(1) obtain d1 where d1: "rx_match_within d1 r1 st = Some (rx_match r1 st)" by blast
  have "\<exists>d. \<forall>m \<in> set (rx_match r1 st). rx_match_within d r2 m = Some (rx_match r2 m)"
    by (rule enough_for_all) (use 4(2) rx_match_within_mono in blast)+
  then obtain d2 where d2: "\<forall>m \<in> set (rx_match r1 st). rx_match_within d2 r2 m = Some (rx_match r2 m)"
    by blast
  define D where "D = max d1 d2"
  from d1 have a: "rx_match_within D r1 st = Some (rx_match r1 st)"
    by (rule rx_match_within_mono[rotated]) (simp add: D_def)
  have "collect (rx_match_within D r2) (rx_match r1 st)
      = Some (concat (map (rx_match r2) (rx_match r1 st)))"
  proof (rule collect_Some)
    fix m assume "m \<in> set (rx_match r1 st)"
    with d2 have "rx_match_within d2 r2 m = Some (rx_match r2 m)" by blast
    then show "rx_match_within D r2 m = Some (rx_match r2 m)"
      by (rule rx_match_within_mono[rotated]) (simp add: D_def)
  qed
  with a have "rx_match_within (Suc D) (Seq r1 r2) st = Some (rx_match (Seq r1 r2) st)"
    by (simp add: rx_match.simps(4))
  then show ?case by (rule exI)
next
  case (5 r st)
  let ?g = "\<lambda>st'. if length (remaining st') < length (remaining st)
                   then rx_match (Star r) st' else []"
  from 5(1) obtain d1 where d1: "rx_match_within d1 r st = Some (rx_match r st)" by blast
  have "\<exists>d. \<forall>m \<in> set (rx_match r st).
      (if length (remaining m) < length (remaining st)
       then rx_match_within d (Star r) m else Some []) = Some (?g m)"
  proof (rule enough_for_all)
    fix m assume "m \<in> set (rx_match r st)"
    with 5(2)[of m] show "\<exists>d. (if length (remaining m) < length (remaining st)
       then rx_match_within d (Star r) m else Some []) = Some (?g m)" by auto
  next
    fix m and d d' :: nat
    assume "(if length (remaining m) < length (remaining st)
       then rx_match_within d (Star r) m else Some []) = Some (?g m)" and "d \<le> d'"
    then show "(if length (remaining m) < length (remaining st)
       then rx_match_within d' (Star r) m else Some []) = Some (?g m)"
      using rx_match_within_mono[of d d' "Star r" m] by (auto split: if_splits)
  qed
  then obtain d2 where d2: "\<forall>m \<in> set (rx_match r st).
      (if length (remaining m) < length (remaining st)
       then rx_match_within d2 (Star r) m else Some []) = Some (?g m)" by blast
  define D where "D = max d1 d2"
  from d1 have a: "rx_match_within D r st = Some (rx_match r st)"
    by (rule rx_match_within_mono[rotated]) (simp add: D_def)
  have "collect (\<lambda>m. if length (remaining m) < length (remaining st)
                      then rx_match_within D (Star r) m else Some []) (rx_match r st)
      = Some (concat (map ?g (rx_match r st)))"
  proof (rule collect_Some)
    fix m assume "m \<in> set (rx_match r st)"
    with d2 have "(if length (remaining m) < length (remaining st)
       then rx_match_within d2 (Star r) m else Some []) = Some (?g m)" by blast
    moreover have "d2 \<le> D" by (simp add: D_def)
    ultimately show "(if length (remaining m) < length (remaining st)
       then rx_match_within D (Star r) m else Some []) = Some (?g m)"
      using rx_match_within_mono[of d2 D "Star r" m] by (auto split: if_splits)
  qed
  with a have "rx_match_within (Suc D) (Star r) st = Some (rx_match (Star r) st)"
    by (simp add: rx_match.simps(5))
  then show ?case by (rule exI)
next
  case (6 r st)
  let ?g = "\<lambda>st'. if length (remaining st') < length (remaining st)
                   then rx_match (LazyStar r) st' else []"
  from 6(1) obtain d1 where d1: "rx_match_within d1 r st = Some (rx_match r st)" by blast
  have "\<exists>d. \<forall>m \<in> set (rx_match r st).
      (if length (remaining m) < length (remaining st)
       then rx_match_within d (LazyStar r) m else Some []) = Some (?g m)"
  proof (rule enough_for_all)
    fix m assume "m \<in> set (rx_match r st)"
    with 6(2)[of m] show "\<exists>d. (if length (remaining m) < length (remaining st)
       then rx_match_within d (LazyStar r) m else Some []) = Some (?g m)" by auto
  next
    fix m and d d' :: nat
    assume "(if length (remaining m) < length (remaining st)
       then rx_match_within d (LazyStar r) m else Some []) = Some (?g m)" and "d \<le> d'"
    then show "(if length (remaining m) < length (remaining st)
       then rx_match_within d' (LazyStar r) m else Some []) = Some (?g m)"
      using rx_match_within_mono[of d d' "LazyStar r" m] by (auto split: if_splits)
  qed
  then obtain d2 where d2: "\<forall>m \<in> set (rx_match r st).
      (if length (remaining m) < length (remaining st)
       then rx_match_within d2 (LazyStar r) m else Some []) = Some (?g m)" by blast
  define D where "D = max d1 d2"
  from d1 have a: "rx_match_within D r st = Some (rx_match r st)"
    by (rule rx_match_within_mono[rotated]) (simp add: D_def)
  have "collect (\<lambda>m. if length (remaining m) < length (remaining st)
                      then rx_match_within D (LazyStar r) m else Some []) (rx_match r st)
      = Some (concat (map ?g (rx_match r st)))"
  proof (rule collect_Some)
    fix m assume "m \<in> set (rx_match r st)"
    with d2 have "(if length (remaining m) < length (remaining st)
       then rx_match_within d2 (LazyStar r) m else Some []) = Some (?g m)" by blast
    moreover have "d2 \<le> D" by (simp add: D_def)
    ultimately show "(if length (remaining m) < length (remaining st)
       then rx_match_within D (LazyStar r) m else Some []) = Some (?g m)"
      using rx_match_within_mono[of d2 D "LazyStar r" m] by (auto split: if_splits)
  qed
  with a have "rx_match_within (Suc D) (LazyStar r) st = Some (rx_match (LazyStar r) st)"
    by (simp add: rx_match.simps(6))
  then show ?case by (rule exI)
next
  case (7 n r st)
  from 7 obtain d where "rx_match_within d r st = Some (rx_match r st)" by blast
  then have "rx_match_within (Suc d) (Group n r) st = Some (rx_match (Group n r) st)"
    by (simp add: rx_match.simps(7))
  then show ?case by (rule exI)
qed

lemma rx_search_within_sound:
  "rx_search_within d r skipped p s = Some found \<Longrightarrow> found = rx_search r skipped p s"
proof (induction s arbitrary: skipped p)
  case Nil
  let ?st = "\<lparr>prevChar = p, remaining = [], captures = Map.empty\<rparr>"
  from Nil obtain sts where a: "rx_match_within d r ?st = Some sts"
    by (auto split: option.splits)
  from rx_match_within_sound[OF a] have b: "rx_match r ?st = sts" by simp
  from Nil a show ?case by (cases sts) (simp_all add: b)
next
  case (Cons c cs)
  let ?st = "\<lparr>prevChar = p, remaining = c # cs, captures = Map.empty\<rparr>"
  from Cons.prems obtain sts where a: "rx_match_within d r ?st = Some sts"
    by (auto split: option.splits)
  from rx_match_within_sound[OF a] have b: "rx_match r ?st = sts" by simp
  show ?case
  proof (cases sts)
    case Nil
    with Cons.prems a have "rx_search_within d r (skipped @ [c]) (Some c) cs = Some found"
      by simp
    from Cons.IH[OF this] show ?thesis by (simp add: b Nil)
  next
    case (Cons st' sts')
    with Cons.prems a show ?thesis by (simp add: b)
  qed
qed

lemma rx_search_within_mono:
  assumes "d \<le> d'"
  shows "rx_search_within d r skipped p s = Some found
     \<Longrightarrow> rx_search_within d' r skipped p s = Some found"
proof (induction s arbitrary: skipped p)
  case Nil
  let ?st = "\<lparr>prevChar = p, remaining = [], captures = Map.empty\<rparr>"
  from Nil obtain sts where a: "rx_match_within d r ?st = Some sts"
    by (auto split: option.splits)
  from rx_match_within_mono[OF assms a] have b: "rx_match_within d' r ?st = Some sts" .
  from Nil a show ?case by (simp add: b)
next
  case (Cons c cs)
  let ?st = "\<lparr>prevChar = p, remaining = c # cs, captures = Map.empty\<rparr>"
  from Cons.prems obtain sts where a: "rx_match_within d r ?st = Some sts"
    by (auto split: option.splits)
  from rx_match_within_mono[OF assms a] have b: "rx_match_within d' r ?st = Some sts" .
  show ?case
  proof (cases sts)
    case Nil
    with Cons.prems a have "rx_search_within d r (skipped @ [c]) (Some c) cs = Some found"
      by simp
    from Cons.IH[OF this] show ?thesis by (simp add: b Nil)
  next
    case (Cons st' sts')
    with Cons.prems a show ?thesis by (simp add: b)
  qed
qed

lemma rx_search_within_enough:
  "\<exists>d. rx_search_within d r skipped p s = Some (rx_search r skipped p s)"
proof (induction s arbitrary: skipped p)
  case Nil
  let ?st = "\<lparr>prevChar = p, remaining = [], captures = Map.empty\<rparr>"
  from rx_match_within_enough obtain d where "rx_match_within d r ?st = Some (rx_match r ?st)"
    by blast
  then have "rx_search_within d r skipped p [] = Some (rx_search r skipped p [])"
    by (cases "rx_match r ?st") simp_all
  then show ?case by (rule exI)
next
  case (Cons c cs)
  let ?st = "\<lparr>prevChar = p, remaining = c # cs, captures = Map.empty\<rparr>"
  from rx_match_within_enough obtain d1 where d1: "rx_match_within d1 r ?st = Some (rx_match r ?st)"
    by blast
  from Cons.IH obtain d2 where
    d2: "rx_search_within d2 r (skipped @ [c]) (Some c) cs
          = Some (rx_search r (skipped @ [c]) (Some c) cs)"
    by blast
  define D where "D = max d1 d2"
  from d1 have a: "rx_match_within D r ?st = Some (rx_match r ?st)"
    by (rule rx_match_within_mono[rotated]) (simp add: D_def)
  from d2 have b: "rx_search_within D r (skipped @ [c]) (Some c) cs
          = Some (rx_search r (skipped @ [c]) (Some c) cs)"
    by (rule rx_search_within_mono[rotated]) (simp add: D_def)
  have "rx_search_within D r skipped p (c # cs) = Some (rx_search r skipped p (c # cs))"
    by (cases "rx_match r ?st") (simp_all add: a b)
  then show ?case by (rule exI)
qed

text \<open>
  \<open>std::regex_replace\<close> on the bounded stack: it fails when one of its searches fails.
\<close>

function regex_replace_from_within :: "nat \<Rightarrow> rx \<Rightarrow> fmt_item list \<Rightarrow> char option \<Rightarrow> string
    \<Rightarrow> string option" where
  "regex_replace_from_within d r fmt p s =
     (case rx_search_within d r [] p s of
        None \<Rightarrow> None
      | Some None \<Rightarrow> Some s
      | Some (Some (pre, st, m)) \<Rightarrow>
          (if m = []
           then (case remaining st of
                   [] \<Rightarrow> Some (pre @ rx_format fmt st m)
                 | c # cs \<Rightarrow>
                     (case regex_replace_from_within d r fmt (Some c) cs of
                        None \<Rightarrow> None
                      | Some rest \<Rightarrow> Some (pre @ rx_format fmt st m @ c # rest)))
           else (case regex_replace_from_within d r fmt (Some (last m)) (remaining st) of
                   None \<Rightarrow> None
                 | Some rest \<Rightarrow> Some (pre @ rx_format fmt st m @ rest))))"
  by pat_completeness auto
termination
proof (relation "measure (\<lambda>(d, r, fmt, p, s). length s)", goal_cases)
  case 1
  show ?case by simp
next
  case (2 d r fmt p s x2 x pre y st m c cs)
  then have "rx_search_within d r [] p s = Some (Some (pre, st, m))" by simp
  from rx_search_within_sound[OF this] have "rx_search r [] p s = Some (pre, st, m)" by simp
  from rx_search_suffix[OF this] have "s = pre @ m @ remaining st" by simp
  then have "length s = length (pre @ m @ remaining st)" by (rule arg_cong)
  then have "length s = length pre + length m + length (remaining st)" by simp
  with 2 show ?case by simp
next
  case (3 d r fmt p s x2 x pre y st m)
  then have "rx_search_within d r [] p s = Some (Some (pre, st, m))" by simp
  from rx_search_within_sound[OF this] have "rx_search r [] p s = Some (pre, st, m)" by simp
  from rx_search_suffix[OF this] have "s = pre @ m @ remaining st" by simp
  then have "length s = length (pre @ m @ remaining st)" by (rule arg_cong)
  then have "length s = length pre + length m + length (remaining st)" by simp
  with 3 show ?case by simp
qed

declare regex_replace_from_within.simps [simp del]

definition regex_replace_within :: "nat \<Rightarrow> string \<Rightarrow> rx \<Rightarrow> fmt_item list \<Rightarrow> string option" where
  "regex_replace_within d s r fmt = regex_replace_from_within d r fmt None s"

text \<open>
  The three passes that call \<open>std::regex_replace\<close>, and the pipeline, on the bounded stack:
  a failed call ends the pass and the renderer.
\<close>

definition processHeaders_within :: "nat \<Rightarrow> string \<Rightarrow> string option" where
  "processHeaders_within d markdown = do {
     let html = markdown;
     html \<leftarrow> regex_replace_within d html (headerRegex ''#'') [Txt ''<h1>'', Cap 1, Txt ''</h1>''];
     html \<leftarrow> regex_replace_within d html (headerRegex ''##'') [Txt ''<h2>'', Cap 1, Txt ''</h2>''];
     html \<leftarrow> regex_replace_within d html (headerRegex ''###'') [Txt ''<h3>'', Cap 1, Txt ''</h3>''];
     html \<leftarrow> regex_replace_within d html (headerRegex ''####'') [Txt ''<h4>'', Cap 1, Txt ''</h4>''];
     Some html
   }"

definition processLists_within :: "nat \<Rightarrow> string \<Rightarrow> string option" where
  "processLists_within d markdown = do {
     let html = markdown;
     html \<leftarrow> regex_replace_within d html ulRegex [Txt ''<li>'', Cap 1, Txt ''</li>''];
     html \<leftarrow> regex_replace_within d html ulWrapRegex [Txt ''<ul>'', Whole, Txt ''</ul>''];
     html \<leftarrow> regex_replace_within d html olRegex [Txt ''<li>'', Cap 1, Txt ''</li>''];
     Some html
   }"

definition processLinks_within :: "nat \<Rightarrow> string \<Rightarrow> string option" where
  "processLinks_within d markdown =
     regex_replace_within d markdown linkRegex
       [Txt ''<a href=\"'', Cap 2, Txt ''\">'', Cap 1, Txt ''</a>'']"

definition markdownToHtml_within :: "nat \<Rightarrow> string \<Rightarrow> string option" where
  "markdownToHtml_within d markdown = do {
     let html = markdown;
     html \<leftarrow> processHeaders_within d html;
     html \<leftarrow> processCodeBlocks html;
     html \<leftarrow> processBoldText html;
     html \<leftarrow> processLists_within d html;
     html \<leftarrow> processLinks_within d html;
     html \<leftarrow> processTables html;
     Some html
   }"

section \<open>HttpServer: response framing and content types\<close>

text \<open>\<open>HttpServer::createHttpResponse\<close>.\<close>

definition statusText :: "int \<Rightarrow> string" where
  "statusText statusCode =
     (if statusCode = 200 then ''OK''
      else if statusCode = 404 then ''Not Found''
      else if statusCode = 405 then ''Method Not Allowed''
      else ''Internal Server Error'')"

definition createHttpResponse :: "int \<Rightarrow> string \<Rightarrow> string \<Rightarrow> string" where
  "createHttpResponse statusCode contentType body =
     ''HTTP/1.1 '' @ show_int statusCode @ '' '' @ statusText statusCode @ CRLF
     @ ''Content-Type: '' @ contentType @ CRLF
     @ ''Content-Length: '' @ show_nat (length body) @ CRLF
     @ ''Access-Control-Allow-Origin: *'' @ CRLF
     @ ''Connection: close'' @ CRLF
     @ CRLF
     @ body"

text \<open>\<open>HttpServer::getMimeType\<close>: four substring tests, in the source's order.\<close>

definition getMimeType :: "string \<Rightarrow> string" where
  "getMimeType path =
     (if str_find path ''.html'' 0 \<noteq> None then ''text/html''
      else if str_find path ''.css'' 0 \<noteq> None then ''text/css''
      else if str_find path ''.js'' 0 \<noteq> None then ''application/javascript''
      else if str_find path ''.json'' 0 \<noteq> None then ''application/json''
      else ''text/plain'')"

section \<open>Request parsing\<close>

text \<open>
  The header loop of \<open>HttpServer::parseHttpRequest\<close> over the lines that follow the request
  line.  It returns the header map and the lines it did not read (the line that ends the
  loop is consumed).  \<open>key\<close> is \<open>line.substr(0, colonPos)\<close> and \<open>value\<close> is
  \<open>line.substr(colonPos + 1)\<close>, both in range; one trailing carriage return is popped.
\<close>

fun parse_headers :: "string list \<Rightarrow> (string \<rightharpoonup> string) \<Rightarrow> (string \<rightharpoonup> string) \<times> string list" where
  "parse_headers [] headers = (headers, [])"
| "parse_headers (line # ls) headers =
     (if line = [CHR 0x0D] then (headers, ls)
      else if line = [] \<or> line = [CHR 0x0D] then (headers, ls)
      else (case str_find line '':'' 0 of
              None \<Rightarrow> parse_headers ls headers
            | Some colonPos \<Rightarrow>
                (let key = take colonPos line;
                     value = drop (colonPos + 1) line;
                     value' = (if value \<noteq> [] \<and> last value = CHR 0x0D then butlast value else value)
                 in parse_headers ls (headers(key \<mapsto> value')))))"

record HttpRequest =
  req_method :: string
  req_path :: string
  req_headers :: "string \<rightharpoonup> string"
  req_body :: string

text \<open>
  \<open>HttpServer::parseHttpRequest\<close>.  The caller passes empty strings for \<open>method\<close> and
  \<open>path\<close> and an empty map for \<open>headers\<close>; the function fills them and returns the body,
  every remaining line followed by a newline.
\<close>

definition parseHttpRequest :: "string \<Rightarrow> HttpRequest" where
  "parseHttpRequest request =
     (case getlines request of
        [] \<Rightarrow> \<lparr>req_method = [], req_path = [], req_headers = Map.empty, req_body = []\<rparr>
      | line # ls \<Rightarrow>
          (let (method, rest) = extract_word line;
               (path, rest') = extract_word rest;
               (headers, bodyLines) = parse_headers ls Map.empty
           in \<lparr>req_method = method, req_path = path, req_headers = headers,
               req_body = concat (map (\<lambda>l. l @ [CHR 0x0A]) bodyLines)\<rparr>))"

section \<open>LessonLoader: the catalog\<close>

record Lesson =
  title :: string
  content :: string
  htmlContent :: string
  tags :: "string list"

record Module =
  name :: string
  lessons :: "string list"
  lessonData :: "string \<rightharpoonup> Lesson"

text \<open>
  The members \<open>modules_\<close> and \<open>moduleOrder_\<close> of the loader.  The loader iterates over
  \<open>modules_\<close>, a \<open>std::map\<close>, in the order of its keys: it is an association list sorted by
  key (strings compare byte by byte), \<open>modules_.find(k)\<close> is \<open>map_of\<close>, and
  \<open>modules_[k] = v\<close> is \<open>map_set\<close>.
\<close>

fun map_set :: "string \<Rightarrow> 'v \<Rightarrow> (string \<times> 'v) list \<Rightarrow> (string \<times> 'v) list" where
  "map_set k v [] = [(k, v)]"
| "map_set k v ((k', v') # m) =
     (if k = k' then (k, v) # m
      else if k < k' then (k, v) # (k', v') # m
      else (k', v') # map_set k v m)"

record LessonLoader =
  modules :: "(string \<times> Module) list"
  moduleOrder :: "string list"

text \<open>A value-initialised \<open>Lesson\<close>, as \<open>std::map::operator[]\<close> inserts for a missing key.\<close>

definition default_Lesson :: Lesson where
  "default_Lesson = \<lparr>title = [], content = [], htmlContent = [], tags = []\<rparr>"

definition map_at :: "(string \<rightharpoonup> Lesson) \<Rightarrow> string \<Rightarrow> Lesson" where
  "map_at m k = (case m k of Some v \<Rightarrow> v | None \<Rightarrow> default_Lesson)"

text \<open>\<open>std::find(xs.begin(), xs.end(), x)\<close> as the index of the iterator it returns:
  the first position of \<open>x\<close>, or \<open>length xs\<close> for \<open>xs.end()\<close>.\<close>

definition std_find :: "'a list \<Rightarrow> 'a \<Rightarrow> nat" where
  "std_find xs x = length (takeWhile (\<lambda>y. y \<noteq> x) xs)"

text \<open>\<open>LessonLoader::getLessonContent\<close>.\<close>

definition getLessonContent :: "LessonLoader \<Rightarrow> string \<Rightarrow> string \<Rightarrow> string" where
  "getLessonContent ll module lessonName =
     (case map_of (modules ll) module of
        None \<Rightarrow> ''<h2>Module Not Found</h2><p>This module is not available.</p>''
      | Some m \<Rightarrow>
          (case lessonData m lessonName of
             None \<Rightarrow> ''<h2>Lesson Not Found</h2><p>This lesson is not available.</p>''
           | Some l \<Rightarrow> htmlContent l))"

text \<open>\<open>LessonLoader::getPreviousNextLesson\<close>.\<close>

definition getPreviousNextLesson :: "LessonLoader \<Rightarrow> string \<Rightarrow> string \<Rightarrow> string \<times> string" where
  "getPreviousNextLesson ll module currentLesson =
     (case map_of (modules ll) module of
        None \<Rightarrow> ([], [])
      | Some m \<Rightarrow>
          (let ls = lessons m; currentIt = std_find ls currentLesson
           in if currentIt = length ls then ([], [])
              else (let prev = (if currentIt \<noteq> 0 then ls ! (currentIt - 1) else []);
                        next = (if currentIt + 1 \<noteq> length ls then ls ! (currentIt + 1) else [])
                    in (prev, next))))"

text \<open>The table \<open>lessonOrder\<close> of \<open>LessonLoader::sortLessonsInModule\<close>.\<close>

definition lessonOrder :: "string \<rightharpoonup> string list" where
  "lessonOrder =
     [''fundamentals'' \<mapsto> [''introduction'', ''sockets'', ''http-basics'', ''threading''],
      ''building-blocks'' \<mapsto>
        [''server-class'', ''route-handling'', ''request-parsing'', ''response-generation''],
      ''advanced-features'' \<mapsto>
        [''database-integration'', ''authentication'', ''error-handling'', ''performance''],
      ''deployment'' \<mapsto> [''production-setup'', ''monitoring'', ''scaling'', ''security'']]"

text \<open>
  The two loops of \<open>sortLessonsInModule\<close>, on the pair \<open>(sortedLessons, sortedLessonData)\<close>.
  \<open>module.lessonData[lessonName]\<close> reads a default lesson for a name with no data; the
  entry it inserts into \<open>module.lessonData\<close> is lost when that map is overwritten.
\<close>

fun add_desired :: "Module \<Rightarrow> string list \<Rightarrow> string list \<times> (string \<rightharpoonup> Lesson)
    \<Rightarrow> string list \<times> (string \<rightharpoonup> Lesson)" where
  "add_desired m [] acc = acc"
| "add_desired m (lessonName # rest) (sortedLessons, sortedLessonData) =
     add_desired m rest
       (if std_find (lessons m) lessonName \<noteq> length (lessons m)
        then (sortedLessons @ [lessonName],
              sortedLessonData(lessonName \<mapsto> map_at (lessonData m) lessonName))
        else (sortedLessons, sortedLessonData))"

fun add_remaining :: "Module \<Rightarrow> string list \<Rightarrow> string list \<times> (string \<rightharpoonup> Lesson)
    \<Rightarrow> string list \<times> (string \<rightharpoonup> Lesson)" where
  "add_remaining m [] acc = acc"
| "add_remaining m (lessonName # rest) (sortedLessons, sortedLessonData) =
     add_remaining m rest
       (if std_find sortedLessons lessonName = length sortedLessons
        then (sortedLessons @ [lessonName],
              sortedLessonData(lessonName \<mapsto> map_at (lessonData m) lessonName))
        else (sortedLessons, sortedLessonData))"

definition sortLessonsInModule :: "Module \<Rightarrow> Module" where
  "sortLessonsInModule m =
     (case lessonOrder (name m) of
        None \<Rightarrow> m
      | Some desiredOrder \<Rightarrow>
          (let (sortedLessons, sortedLessonData) =
                 add_remaining m (lessons m) (add_desired m desiredOrder ([], Map.empty))
           in m\<lparr>lessons := sortedLessons, lessonData := sortedLessonData\<rparr>))"

section \<open>LessonLoader: navigation\<close>

text \<open>\<open>LessonLoader::getLessonTitle\<close> and \<open>LessonLoader::getModuleTitle\<close>.\<close>

definition lessonTitleMap :: "string \<rightharpoonup> string" where
  "lessonTitleMap =
     [''introduction'' \<mapsto> ''Introduction'',
      ''sockets'' \<mapsto> ''Socket Programming'',
      ''http-basics'' \<mapsto> ''HTTP Protocol Basics'',
      ''threading'' \<mapsto> ''Multi-threading & Concurrency'',
      ''server-class'' \<mapsto> ''Server Class Architecture'',
      ''route-handling'' \<mapsto> ''Route Handling & Middleware'',
      ''request-parsing'' \<mapsto> ''Request Parsing & Validation'',
      ''response-generation'' \<mapsto> ''Response Generation & Headers'',
      ''database-integration'' \<mapsto> ''Database Integration'',
      ''authentication'' \<mapsto> ''Authentication & Security'',
      ''error-handling'' \<mapsto> ''Error Handling & Logging'',
      ''performance'' \<mapsto> ''Performance Optimization'',
      ''production-setup'' \<mapsto> ''Production Setup'',
      ''monitoring'' \<mapsto> ''Monitoring & Observability'',
      ''scaling'' \<mapsto> ''Scaling & Load Balancing'',
      ''security'' \<mapsto> ''Security Best Practices'']"

definition getLessonTitle :: "string \<Rightarrow> string" where
  "getLessonTitle lessonName =
     (case lessonTitleMap lessonName of Some t \<Rightarrow> t | None \<Rightarrow> lessonName)"

definition moduleTitleMap :: "string \<rightharpoonup> string" where
  "moduleTitleMap =
     [''fundamentals'' \<mapsto> ''Fundamentals'',
      ''building-blocks'' \<mapsto> ''Building Blocks'',
      ''advanced-features'' \<mapsto> ''Advanced Features'',
      ''deployment'' \<mapsto> ''Deployment & Production'']"

definition getModuleTitle :: "string \<Rightarrow> string" where
  "getModuleTitle moduleName =
     (case moduleTitleMap moduleName of Some t \<Rightarrow> t | None \<Rightarrow> moduleName)"

text \<open>The non-ASCII characters of the navigation strings, as their UTF-8 bytes.\<close>

definition rocket :: string where
  "rocket = [CHR 0xF0, CHR 0x9F, CHR 0x9A, CHR 0x80]"

definition rightArrow :: string where
  "rightArrow = [CHR 0xE2, CHR 0x86, CHR 0x92]"

definition leftArrow :: string where
  "leftArrow = [CHR 0xE2, CHR 0x86, CHR 0x90]"

text \<open>\<open>LessonLoader::generateLessonNavigation\<close>: the module tabs, the lesson list of the
  current module, and the previous and next links.\<close>

definition moduleTab :: "LessonLoader \<Rightarrow> string \<Rightarrow> string \<Rightarrow> string" where
  "moduleTab ll module moduleName =
     (case map_of (modules ll) moduleName of
        None \<Rightarrow> []
      | Some m \<Rightarrow>
          (let activeClass = (if moduleName = module then '' class=\"active\"'' else []);
               moduleTitle = getModuleTitle moduleName;
               firstLesson = (if lessons m = [] then ''introduction'' else hd (lessons m))
           in ''<li'' @ activeClass @ ''><a href=\"/course/'' @ moduleName @ ''/'' @ firstLesson
              @ ''\">'' @ moduleTitle @ ''</a></li>''))"

definition lessonItem :: "string \<Rightarrow> string \<Rightarrow> string \<Rightarrow> string" where
  "lessonItem module currentLesson lessonName =
     (let activeClass = (if lessonName = currentLesson then '' class=\"active\"'' else []);
          lessonTitle = getLessonTitle lessonName
      in ''<li'' @ activeClass @ ''><a href=\"/course/'' @ module @ ''/'' @ lessonName
         @ ''\">'' @ lessonTitle @ ''</a></li>'')"

definition generateLessonNavigation :: "LessonLoader \<Rightarrow> string \<Rightarrow> string \<Rightarrow> string" where
  "generateLessonNavigation ll module currentLesson =
     ''<div class=\"course-navigation\">''
     @ ''<div class=\"nav-header\">''
     @ ''<h2>'' @ rocket @ '' C++ Server Development Course</h2>''
     @ ''<div class=\"breadcrumb\">''
     @ ''<a href=\"/\">Home</a> '' @ rightArrow @ '' ''
     @ ''<a href=\"/#course-overview\">Course</a> '' @ rightArrow @ '' ''
     @ ''<span class=\"current-module\">'' @ module @ ''</span>''
     @ ''</div>''
     @ ''</div>''
     @ ''<div class=\"module-tabs\">''
     @ ''<ul>''
     @ concat (map (moduleTab ll module) (moduleOrder ll))
     @ ''</ul></div>''
     @ ''<div class=\"module-navigation\">''
     @ ''<h3>Module: '' @ getModuleTitle module @ ''</h3>''
     @ ''<ul class=\"lesson-list\">''
     @ (case map_of (modules ll) module of
          None \<Rightarrow> []
        | Some m \<Rightarrow> concat (map (lessonItem module currentLesson) (lessons m)))
     @ ''</ul></div>''
     @ ''<div class=\"lesson-navigation\">''
     @ (let prevNext = getPreviousNextLesson ll module currentLesson
        in (if fst prevNext \<noteq> []
            then ''<a href=\"/course/'' @ module @ ''/'' @ fst prevNext
                 @ ''\" class=\"nav-btn prev-btn\">'' @ leftArrow @ '' Previous</a>''
            else [])
         @ (if snd prevNext \<noteq> []
            then ''<a href=\"/course/'' @ module @ ''/'' @ snd prevNext
                 @ ''\" class=\"nav-btn next-btn\">Next '' @ rightArrow @ ''</a>''
            else []))
     @ ''</div>''
     @ ''</div>''"

section \<open>LessonLoader: loading the catalog\<close>

text \<open>
  The lessons directory as the loader sees it: an entry of a directory is its file name
  and either a regular file, with the text a stream reads from it (\<open>None\<close> when it cannot
  be opened), or a directory, with its entries in the order of enumeration.  A stream on a
  directory opens, as \<open>std::ifstream\<close> does on a POSIX system, and reads no byte from it.
\<close>

datatype dir_entry = RegularFile "string option" | Directory "(string \<times> dir_entry) list"

fun read_file :: "dir_entry \<Rightarrow> string option" where
  "read_file (RegularFile fileText) = fileText"
| "read_file (Directory entries) = Some []"

text \<open>
  \<open>path::extension()\<close> and \<open>path::stem()\<close> of a file name: the extension starts at the last
  period, unless the name is \<open>.\<close> or \<open>..\<close>, has no period, or has its last period as first
  character; the stem is the name without the extension.
\<close>

definition path_extension :: "string \<Rightarrow> string" where
  "path_extension f =
     (if f = ''.'' \<or> f = ''..'' then []
      else (let k = length (takeWhile (\<lambda>c. c \<noteq> CHR ''.'') (rev f))
            in if k < length f \<and> length f - 1 - k \<noteq> 0 then drop (length f - 1 - k) f else []))"

definition path_stem :: "string \<Rightarrow> string" where
  "path_stem f = take (length f - length (path_extension f)) f"

text \<open>\<open>LessonLoader::parseMarkdownFile\<close>: \<open>None\<close> when the file cannot be opened.\<close>

definition parseMarkdownFile :: "dir_entry \<Rightarrow> Lesson option" where
  "parseMarkdownFile file =
     (case read_file file of
        None \<Rightarrow> None
      | Some text \<Rightarrow>
          Some \<lparr>title = extractTitle text, content = text, htmlContent = [],
                tags = extractTags text\<rparr>)"

text \<open>
  The inner loop of \<open>LessonLoader::loadAllLessons\<close> over the entries of a module directory,
  on the module under construction; \<open>None\<close> when the renderer throws.  The loader is taken
  in a run in which the calls of the library's matcher (for the title, the tags and in the
  renderer) complete.
\<close>

fun loadLessons :: "(string \<times> dir_entry) list \<Rightarrow> Module \<Rightarrow> Module option" where
  "loadLessons [] m = Some m"
| "loadLessons ((fileName, lessonEntry) # entries) m =
     (if path_extension fileName = ''.md''
      then (let lessonName = path_stem fileName;
                m' = m\<lparr>lessons := lessons m @ [lessonName]\<rparr>
            in case parseMarkdownFile lessonEntry of
                 None \<Rightarrow> loadLessons entries m'
               | Some lesson \<Rightarrow>
                   (case markdownToHtml (content lesson) of
                      None \<Rightarrow> None
                    | Some html \<Rightarrow>
                        loadLessons entries
                          (m'\<lparr>lessonData := (lessonData m')
                                (lessonName \<mapsto> lesson\<lparr>htmlContent := html\<rparr>)\<rparr>)))
      else loadLessons entries m)"

text \<open>
  The outer loop over the entries of the lessons directory, on \<open>modules_\<close>: the map, and
  whether the loop ran to its end without an exception.
\<close>

fun loadModules :: "(string \<times> dir_entry) list \<Rightarrow> (string \<times> Module) list
    \<Rightarrow> (string \<times> Module) list \<times> bool" where
  "loadModules [] ms = (ms, True)"
| "loadModules ((moduleName, RegularFile fileText) # entries) ms = loadModules entries ms"
| "loadModules ((moduleName, Directory lessonEntries) # entries) ms =
     (case loadLessons lessonEntries \<lparr>name = moduleName, lessons = [], lessonData = Map.empty\<rparr> of
        None \<Rightarrow> (ms, False)
      | Some m \<Rightarrow> loadModules entries (map_set moduleName (sortLessonsInModule m) ms))"

text \<open>\<open>LessonLoader::sortModulesInOrder\<close>.\<close>

definition moduleDesiredOrder :: "string list" where
  "moduleDesiredOrder = [''fundamentals'', ''building-blocks'', ''advanced-features'', ''deployment'']"

fun add_remaining_modules :: "(string \<times> Module) list \<Rightarrow> string list \<Rightarrow> string list" where
  "add_remaining_modules [] order = order"
| "add_remaining_modules ((moduleName, moduleData) # ms) order =
     add_remaining_modules ms
       (if std_find order moduleName = length order then order @ [moduleName] else order)"

definition sortModulesInOrder :: "LessonLoader \<Rightarrow> LessonLoader" where
  "sortModulesInOrder ll =
     ll\<lparr>moduleOrder :=
          add_remaining_modules (modules ll)
            (filter (\<lambda>moduleName. map_of (modules ll) moduleName \<noteq> None) moduleDesiredOrder)\<rparr>"

text \<open>
  \<open>LessonLoader::loadAllLessons\<close> on the lessons directory (\<open>None\<close> when it does not exist):
  the value returned and the loader afterwards.  Iterating over a path that is not a
  directory throws; an exception ends the function with \<open>false\<close>.
\<close>

definition loadAllLessons :: "dir_entry option \<Rightarrow> LessonLoader \<Rightarrow> bool \<times> LessonLoader" where
  "loadAllLessons lessonsPath ll =
     (case lessonsPath of
        None \<Rightarrow> (False, ll)
      | Some (RegularFile fileText) \<Rightarrow> (False, ll)
      | Some (Directory entries) \<Rightarrow>
          (case loadModules entries (modules ll) of
             (ms, False) \<Rightarrow> (False, ll\<lparr>modules := ms\<rparr>)
           | (ms, True) \<Rightarrow> (True, sortModulesInOrder (ll\<lparr>modules := ms\<rparr>))))"

section \<open>HttpServer: pages and dispatch\<close>

text \<open>
  The members of the server that request handling reads: the route table \<open>routes_\<close>
  (method, then path, to handler), the loader \<open>lessonLoader_\<close> and the fallback catalog
  \<open>courseModules_\<close>.  A handler is a function of the body and the headers.  The files
  under the static root are a map from file path to content.
\<close>

type_synonym RouteHandler = "string \<Rightarrow> (string \<rightharpoonup> string) \<Rightarrow> string"

record HttpServer =
  routes :: "string \<rightharpoonup> (string \<rightharpoonup> RouteHandler)"
  lessonLoader :: LessonLoader
  courseModules :: "string \<rightharpoonup> string list"
  files :: "string \<rightharpoonup> string"

text \<open>\<open>HttpServer::addRoute\<close>: \<open>routes_[method][path] = handler\<close>.\<close>

definition addRoute :: "string \<Rightarrow> string \<Rightarrow> RouteHandler \<Rightarrow> HttpServer \<Rightarrow> HttpServer" where
  "addRoute method path handler srv =
     srv\<lparr>routes := (routes srv)
       (method \<mapsto> (case routes srv method of None \<Rightarrow> Map.empty | Some t \<Rightarrow> t)(path \<mapsto> handler))\<rparr>"

text \<open>\<open>HttpServer::fileExists\<close>, \<open>readFileContent\<close> and \<open>serveStaticFile\<close>.\<close>

definition fileExists :: "HttpServer \<Rightarrow> string \<Rightarrow> bool" where
  "fileExists srv filePath = (files srv filePath \<noteq> None)"

definition readFileContent :: "HttpServer \<Rightarrow> string \<Rightarrow> string" where
  "readFileContent srv filePath =
     (case files srv filePath of Some c \<Rightarrow> c | None \<Rightarrow> ''File not found'')"

definition serveStaticFile :: "HttpServer \<Rightarrow> string \<Rightarrow> string" where
  "serveStaticFile srv path =
     (let filePath = ''../static'' @ path
      in if fileExists srv filePath then readFileContent srv filePath else ''File not found'')"

text \<open>\<open>HttpServer::generateHTML\<close>.  The title of the navigation bar holds the bytes the
  source file has there.\<close>

definition navTitleBytes :: string where
  "navTitleBytes = [CHR 0xC3, CHR 0xB0, CHR 0xC5, CHR 0xB8, CHR 0xC5, CHR 0xA1, CHR 0xE2, CHR 0x82, CHR 0xAC]"

definition generateHTML :: "string \<Rightarrow> string \<Rightarrow> string" where
  "generateHTML ttl cont =
     ''<!DOCTYPE html>''
     @ ''<html lang=\"en\">''
     @ ''<head>''
     @ ''<meta charset=\"UTF-8\">''
     @ ''<meta name=\"viewport\" content=\"width=device-width, initial-scale=1.0\">''
     @ ''<title>'' @ ttl @ ''</title>''
     @ ''<link rel=\"stylesheet\" href=\"/css/style.css\">''
     @ ''<link rel=\"stylesheet\" href=\"https://cdnjs.cloudflare.com/ajax/libs/prism/1.29.0/themes/prism.min.css\">''
     @ ''</head>''
     @ ''<body>''
     @ ''<nav class=\"navbar\">''
     @ ''<div class=\"nav-container\">''
     @ ''<h1 class=\"nav-title\">'' @ navTitleBytes @ '' C++ Server Development</h1>''
     @ ''<ul class=\"nav-menu\">''
     @ ''<li><a href=\"/\">Home</a></li>''
     @ ''<li><a href=\"/course/fundamentals/introduction\">Course</a></li>''
     @ ''<li><a href=\"/api/users\">API</a></li>''
     @ ''<li><a href=\"/health\">Health</a></li>''
     @ ''</ul>''
     @ ''</div>''
     @ ''</nav>''
     @ ''<main class=\"main-content\">''
     @ cont
     @ ''</main>''
     @ ''<footer class=\"footer\">''
     @ ''<p>&copy; 2024 C++ Server Development Course. Built with C++!</p>''
     @ ''</footer>''
     @ ''<script src=\"https://cdnjs.cloudflare.com/ajax/libs/prism/1.29.0/components/prism-core.min.js\"></script>''
     @ ''<script src=\"https://cdnjs.cloudflare.com/ajax/libs/prism/1.29.0/plugins/autoloader/prism-autoloader.min.js\"></script>''
     @ ''<script src=\"/js/app.js\"></script>''
     @ ''</body>''
     @ ''</html>''"

text \<open>\<open>HttpServer::generateCoursePage\<close>; \<open>coursePageWith\<close> is its second half, from
  "Generate navigation" on, for the content chosen in the first.\<close>

definition fallbackNavigation :: "HttpServer \<Rightarrow> string \<Rightarrow> string \<Rightarrow> string" where
  "fallbackNavigation srv module lesson =
     (case courseModules srv module of
        None \<Rightarrow> []
      | Some ls \<Rightarrow>
          ''<div class=\"course-navigation\">''
          @ ''<h2>Module: '' @ module @ ''</h2>''
          @ ''<ul class=\"lesson-list\">''
          @ concat (map (\<lambda>lessonName.
                ''<li'' @ (if lessonName = lesson then '' class=\"active\"'' else [])
                @ ''><a href=\"/course/'' @ module @ ''/'' @ lessonName @ ''\">''
                @ lessonName @ ''</a></li>'') ls)
          @ ''</ul></div>'')"

definition coursePageWith :: "HttpServer \<Rightarrow> string \<Rightarrow> string \<Rightarrow> string \<Rightarrow> string" where
  "coursePageWith srv module lesson cont =
     (let navigation = generateLessonNavigation (lessonLoader srv) module lesson;
          navigation' = (if navigation = [] then fallbackNavigation srv module lesson
                         else navigation)
      in generateHTML (''C++ Server Development - '' @ module @ '' - '' @ lesson)
           (navigation' @ ''<div class=\"lesson-content\">'' @ cont @ ''</div>''))"

definition generateCoursePage :: "HttpServer \<Rightarrow> string \<Rightarrow> string \<Rightarrow> string" where
  "generateCoursePage srv module lesson =
     (let cont = getLessonContent (lessonLoader srv) module lesson
      in if str_find cont ''Lesson Not Found'' 0 \<noteq> None
            \<or> str_find cont ''Module Not Found'' 0 \<noteq> None
         then (case courseModules srv module of
                 None \<Rightarrow>
                   generateHTML ''Module Not Found''
                     ''<h2>Module Not Found</h2><p>The requested module does not exist.</p>''
               | Some ls \<Rightarrow>
                   if std_find ls lesson = length ls
                   then generateHTML ''Lesson Not Found''
                          ''<h2>Lesson Not Found</h2><p>The requested lesson does not exist.</p>''
                   else coursePageWith srv module lesson
                          (''<h2>'' @ lesson @ ''</h2><p>Lesson content is not available.</p>''))
         else coursePageWith srv module lesson cont)"

text \<open>
  The response of \<open>HttpServer::handleClient\<close> to a parsed request: the status code, the
  content type and the body that go to \<open>createHttpResponse\<close>.
\<close>

record Response =
  statusCode :: int
  contentType :: string
  responseBody :: string

definition dispatch :: "HttpServer \<Rightarrow> HttpRequest \<Rightarrow> Response" where
  "dispatch srv req =
     (let method = req_method req; path = req_path req
      in if str_find path ''/course/'' 0 = Some 0
         then (let coursePath = drop 8 path
               in case str_find coursePath ''/'' 0 of
                    Some slashPos \<Rightarrow>
                      \<lparr>statusCode = 200, contentType = ''text/html'',
                       responseBody = generateCoursePage srv (take slashPos coursePath)
                                        (drop (slashPos + 1) coursePath)\<rparr>
                  | None \<Rightarrow>
                      \<lparr>statusCode = 400, contentType = ''text/plain'',
                       responseBody = ''Invalid course path''\<rparr>)
         else if str_find path ''/css/'' 0 = Some 0 \<or> str_find path ''/js/'' 0 = Some 0
         then (let body = serveStaticFile srv path
               in \<lparr>statusCode = (if body = ''File not found'' then 404 else 200),
                   contentType = getMimeType path, responseBody = body\<rparr>)
         else (case routes srv method of
                 Some table \<Rightarrow>
                   (case table path of
                      Some handler \<Rightarrow>
                        (let body = handler (req_body req) (req_headers req)
                         in if path = ''/''
                            then \<lparr>statusCode = 200, contentType = ''text/html'',
                                  responseBody = generateHTML ''C++ Server Development Course'' body\<rparr>
                            else if path = ''/health'' \<or> str_find path ''/api/'' 0 = Some 0
                            then \<lparr>statusCode = 200, contentType = ''application/json'',
                                  responseBody = body\<rparr>
                            else \<lparr>statusCode = 200, contentType = ''text/plain'',
                                  responseBody = body\<rparr>)
                    | None \<Rightarrow>
                        \<lparr>statusCode = 404, contentType = ''text/plain'',
                         responseBody = ''Not Found''\<rparr>)
               | None \<Rightarrow>
                   \<lparr>statusCode = 405, contentType = ''text/plain'',
                    responseBody = ''Method Not Allowed''\<rparr>))"

text \<open>
  \<open>HttpServer::handleClient\<close> on the bytes one \<open>recv\<close> returned (at most 4095; the buffer
  is read as a C string, up to its first NUL byte): the bytes sent back, or nothing when
  \<open>recv\<close> returned no byte.
\<close>

definition handleClient :: "HttpServer \<Rightarrow> string \<Rightarrow> string option" where
  "handleClient srv received =
     (let buffer = take 4095 received
      in if length buffer > 0
         then (let req = parseHttpRequest (takeWhile (\<lambda>c. c \<noteq> CHR 0x00) buffer);
                   r = dispatch srv req
               in Some (createHttpResponse (statusCode r) (contentType r) (responseBody r)))
         else None)"

section \<open>Example data\<close>

text \<open>A small server and catalog on which the theorems below are instantiated.\<close>

definition example_handler :: RouteHandler where
  "example_handler body headers = ''{}''"

definition example_server :: HttpServer where
  "example_server =
     addRoute ''POST'' ''/submit'' example_handler
       (addRoute ''GET'' ''/health'' example_handler
          \<lparr>routes = Map.empty, lessonLoader = \<lparr>modules = [], moduleOrder = []\<rparr>,
           courseModules = Map.empty, files = Map.empty\<rparr>)"

definition example_module :: Module where
  "example_module =
     \<lparr>name = ''fundamentals'',
      lessons = [''threading'', ''extra'', ''introduction'', ''http-basics''],
      lessonData = Map.empty\<rparr>"

definition example_unlisted_module :: Module where
  "example_unlisted_module =
     \<lparr>name = ''appendix'', lessons = [''zeta'', ''alpha''], lessonData = Map.empty\<rparr>"

definition example_loader :: LessonLoader where
  "example_loader =
     \<lparr>modules = [(''fundamentals'',
         \<lparr>name = ''fundamentals'', lessons = [''introduction'', ''sockets'', ''http-basics''],
          lessonData = Map.empty\<rparr>)],
      moduleOrder = [''fundamentals'']\<rparr>"

definition example_request :: string where
  "example_request =
     ''GET /health HTTP/1.1'' @ CRLF @ ''Host: example.com'' @ CRLF @ ''X-Tag:a'' @ CRLF
     @ ''X-Tag: b:c'' @ CRLF @ CRLF @ ''body''"

definition example_table :: string where
  "example_table = ''| A | B |'' @ [CHR 0x0A] @ ''|---|---|'' @ [CHR 0x0A] @ ''| 1 | 2 |''"

definition example_table_html :: string where
  "example_table_html =
     ''<div class=\"table-container\"><table class=\"course-table\">''
     @ ''<tr><td>A</td><td>B</td></tr>'' @ ''<tr><td>1</td><td>2</td></tr>''
     @ ''</table></div>''"

definition example_fundamentals_dir :: "(string \<times> dir_entry) list" where
  "example_fundamentals_dir =
     [(''threading.md'', RegularFile (Some (''# Threads'' @ [CHR 0x0A] @ ''Use **threads**.''))),
      (''notes.txt'', RegularFile (Some ''not a lesson'')),
      (''extra.md'', RegularFile (Some ''no heading #tag'')),
      (''introduction.md'', RegularFile None)]"

definition example_appendix_dir :: "(string \<times> dir_entry) list" where
  "example_appendix_dir =
     [(''zeta.md'', RegularFile (Some ''# Z'')), (''alpha.md'', RegularFile (Some ''# A''))]"

definition example_lessons_dir :: "(string \<times> dir_entry) list" where
  "example_lessons_dir =
     [(''fundamentals'', Directory example_fundamentals_dir),
      (''README.md'', RegularFile (Some ''# Lessons'')),
      (''appendix'', Directory example_appendix_dir)]"

section \<open>Vocabulary of the statements\<close>

text \<open>A path that begins with none of the prefixes \<open>/course/\<close>, \<open>/css/\<close>, \<open>/js/\<close>.\<close>

definition table_prefix_free :: "string \<Rightarrow> bool" where
  "table_prefix_free path =
     (take 8 path \<noteq> ''/course/'' \<and> take 5 path \<noteq> ''/css/'' \<and> take 4 path \<noteq> ''/js/'')"

text \<open>
  The answer to a path under one of the prefixes \<open>/course/\<close>, \<open>/css/\<close> and \<open>/js/\<close>, as the
  text says it: the module of a course path is what stands between the prefix and the next
  slash, the lesson is everything after that slash.
\<close>

definition prefix_response :: "HttpServer \<Rightarrow> string \<Rightarrow> Response" where
  "prefix_response srv path =
     (if take 8 path = ''/course/''
      then (if CHR ''/'' \<in> set (drop 8 path)
            then \<lparr>statusCode = 200, contentType = ''text/html'',
                  responseBody = generateCoursePage srv
                    (takeWhile (\<lambda>c. c \<noteq> CHR ''/'') (drop 8 path))
                    (drop 1 (dropWhile (\<lambda>c. c \<noteq> CHR ''/'') (drop 8 path)))\<rparr>
            else \<lparr>statusCode = 400, contentType = ''text/plain'',
                  responseBody = ''Invalid course path''\<rparr>)
      else \<lparr>statusCode = (if serveStaticFile srv path = ''File not found'' then 404 else 200),
            contentType = getMimeType path,
            responseBody = serveStaticFile srv path\<rparr>)"

text \<open>The route table has an entry for the path, under some method.\<close>

definition path_registered :: "HttpServer \<Rightarrow> string \<Rightarrow> bool" where
  "path_registered srv path =
     (\<exists>method table. routes srv method = Some table \<and> table path \<noteq> None)"

text \<open>
  The header section of a request as the text says it: the lines after the request line up
  to the first line that is empty or a lone carriage return; a line with a colon gives the
  name before its first colon and the value after it, less one trailing carriage return;
  the entry of a name is the last one given for it.
\<close>

definition strip_cr :: "string \<Rightarrow> string" where
  "strip_cr v = (if v \<noteq> [] \<and> last v = CHR 0x0D then butlast v else v)"

definition header_entry :: "string \<Rightarrow> (string \<times> string) option" where
  "header_entry line =
     (if CHR '':'' \<in> set line
      then Some (takeWhile (\<lambda>c. c \<noteq> CHR '':'') line,
                 strip_cr (drop 1 (dropWhile (\<lambda>c. c \<noteq> CHR '':'') line)))
      else None)"

definition header_lines :: "string \<Rightarrow> string list" where
  "header_lines request =
     takeWhile (\<lambda>l. l \<noteq> [] \<and> l \<noteq> [CHR 0x0D]) (drop 1 (getlines request))"

definition last_entry :: "(string \<times> string) list \<Rightarrow> string \<Rightarrow> string option" where
  "last_entry entries k =
     (let es = filter (\<lambda>e. fst e = k) entries
      in if es = [] then None else Some (snd (last es)))"

text \<open>The number of positions of a text at which a given string occurs.\<close>

definition occurrences :: "string \<Rightarrow> string \<Rightarrow> nat" where
  "occurrences nd s = length (filter (\<lambda>i. take (length nd) (drop i s) = nd) [0..<length s])"

text \<open>The lessons of a module directory in the order of discovery: the stems of the
  entries with the extension \<open>.md\<close>.\<close>

definition discovered_lessons :: "(string \<times> dir_entry) list \<Rightarrow> string list" where
  "discovered_lessons lessonEntries =
     map path_stem (filter (\<lambda>f. path_extension f = ''.md'') (map fst lessonEntries))"

section \<open>Facts about the library functions\<close>

lemma str_find_0: "str_find s nd 0 = Some 0 \<longleftrightarrow> take (length nd) s = nd"
proof
  assume "str_find s nd 0 = Some 0"
  from str_find_Some(3)[OF this] show "take (length nd) s = nd" by simp
next
  assume "take (length nd) s = nd"
  then have "take (length nd) (drop 0 s) = nd" by simp
  from str_find_occurs[OF _ _ this, of 0] show "str_find s nd 0 = Some 0" by auto
qed

lemma json_implies_js:
  assumes "str_find path ''.json'' 0 \<noteq> None"
  shows "str_find path ''.js'' 0 \<noteq> None"
proof -
  from assms obtain j where j: "str_find path ''.json'' 0 = Some j" by auto
  have l5: "length ''.json'' = 5" and l3: "length ''.js'' = 3" by simp_all
  from str_find_Some(2,3)[OF j] have a: "j \<le> length path" and b: "take 5 (drop j path) = ''.json''"
    unfolding l5 by simp_all
  have "take 3 (drop j path) = take 3 (take 5 (drop j path))" by simp
  also have "\<dots> = ''.js''" unfolding b by simp
  finally have "take (length ''.js'') (drop j path) = ''.js''" unfolding l3 .
  from str_find_occurs[OF _ a this, of 0] show ?thesis by auto
qed

lemma of_char_digit_char: "d < 10 \<Longrightarrow> of_char (digit_char d) = (48 + d :: nat)"
  by (simp add: digit_char_def)

lemma decimal_value_snoc:
  "decimal_value (ds @ [c]) = 10 * decimal_value ds + (of_char c - of_char CHR ''0'')"
  by (simp add: decimal_value_def)

lemma decimal_value_show_nat: "decimal_value (show_nat n) = n"
proof (induction n rule: show_nat.induct)
  case (1 n)
  show ?case
  proof (cases "n < 10")
    case True
    then have "show_nat n = [digit_char n]" by (subst show_nat.simps) simp
    with True show ?thesis by (simp add: decimal_value_def of_char_digit_char)
  next
    case False
    with 1 have ih: "decimal_value (show_nat (n div 10)) = n div 10" by simp
    have "show_nat n = show_nat (n div 10) @ [digit_char (n mod 10)]"
      using False by (subst show_nat.simps) simp
    then show ?thesis by (simp add: decimal_value_snoc ih of_char_digit_char)
  qed
qed

lemma std_find_end: "std_find xs x = length xs \<longleftrightarrow> x \<notin> set xs"
  by (induction xs) (auto simp: std_find_def)

lemma std_find_le: "std_find xs x \<le> length xs"
  by (simp add: std_find_def length_takeWhile_le)

lemma std_find_nth: "distinct xs \<Longrightarrow> i < length xs \<Longrightarrow> std_find xs (xs ! i) = i"
proof (induction xs arbitrary: i)
  case Nil
  then show ?case by simp
next
  case (Cons a xs)
  show ?case
  proof (cases i)
    case 0
    then show ?thesis by (simp add: std_find_def)
  next
    case (Suc k)
    with Cons.prems have "a \<noteq> xs ! k" by auto
    with Cons Suc show ?thesis by (simp add: std_find_def)
  qed
qed

lemma std_find_hd: "xs \<noteq> [] \<Longrightarrow> std_find xs (hd xs) = 0"
  by (cases xs) (simp_all add: std_find_def)

lemma gpn_at:
  assumes m: "map_of (modules ll) module = Some m" and i: "i < length (lessons m)"
    and f: "std_find (lessons m) l = i"
  shows "getPreviousNextLesson ll module l =
     (if i = 0 then [] else lessons m ! (i - 1),
      if i + 1 = length (lessons m) then [] else lessons m ! (i + 1))"
  using assms by (simp add: getPreviousNextLesson_def Let_def)

lemma add_desired_fst:
  "fst (add_desired m ds (sl, sd)) = sl @ filter (\<lambda>l. l \<in> set (lessons m)) ds"
  by (induction ds arbitrary: sl sd) (simp_all add: std_find_end)

lemma add_remaining_fst:
  "distinct ls \<Longrightarrow>
   fst (add_remaining m ls (sl, sd)) = sl @ filter (\<lambda>l. l \<notin> set sl) ls"
proof (induction ls arbitrary: sl sd)
  case Nil
  then show ?case by simp
next
  case (Cons l ls)
  from Cons.prems have d: "distinct ls" and n: "l \<notin> set ls" by simp_all
  show ?case
  proof (cases "l \<in> set sl")
    case True
    then show ?thesis using Cons.IH[OF d] by (simp add: std_find_end)
  next
    case False
    have "filter (\<lambda>x. x \<notin> set (sl @ [l])) ls = filter (\<lambda>x. x \<notin> set sl) ls"
      using n by (intro filter_cong) auto
    with False show ?thesis using Cons.IH[OF d, of "sl @ [l]"] by (simp add: std_find_end)
  qed
qed

lemma find_in_char:
  "find_in s [c] i = (if c \<in> set s then Some (i + length (takeWhile (\<lambda>x. x \<noteq> c) s)) else None)"
  by (induction s arbitrary: i) auto

lemma str_find_char:
  "str_find s [c] 0 = (if c \<in> set s then Some (length (takeWhile (\<lambda>x. x \<noteq> c) s)) else None)"
  by (simp add: str_find_def find_in_char)

lemma map_of_rev_last: "map_of (rev es) k = last_entry es k"
proof (induction es rule: rev_induct)
  case Nil
  show ?case by (simp add: last_entry_def)
next
  case (snoc e es)
  obtain a b where e: "e = (a, b)" by (cases e)
  show ?case
  proof (cases "a = k")
    case True
    then show ?thesis by (simp add: e last_entry_def)
  next
    case False
    with snoc show ?thesis by (simp add: e last_entry_def)
  qed
qed

lemma parse_headers_fst:
  "fst (parse_headers ls h) =
     h ++ map_of (rev (List.map_filter header_entry
                        (takeWhile (\<lambda>l. l \<noteq> [] \<and> l \<noteq> [CHR 0x0D]) ls)))"
proof (induction ls arbitrary: h)
  case Nil
  show ?case by (simp add: List.map_filter_simps(2))
next
  case (Cons line ls)
  show ?case
  proof (cases "line = [] \<or> line = [CHR 0x0D]")
    case True
    then show ?thesis by (auto simp: List.map_filter_simps)
  next
    case False
    show ?thesis
    proof (cases "CHR '':'' \<in> set line")
      case c: False
      then have "header_entry line = None" by (simp add: header_entry_def)
      with False c Cons.IH[of h] show ?thesis
        by (simp add: str_find_char List.map_filter_simps)
    next
      case c: True
      define colonPos where "colonPos = length (takeWhile (\<lambda>x. x \<noteq> CHR '':'') line)"
      define key where "key = take colonPos line"
      define val where "val = strip_cr (drop (colonPos + 1) line)"
      have f: "str_find line '':'' 0 = Some colonPos"
        using c by (simp add: str_find_char colonPos_def)
      have k: "takeWhile (\<lambda>x. x \<noteq> CHR '':'') line = key"
        unfolding key_def colonPos_def by (rule takeWhile_eq_take)
      have "drop (colonPos + 1) line = drop 1 (drop colonPos line)" by simp
      also have "drop colonPos line = dropWhile (\<lambda>x. x \<noteq> CHR '':'') line"
        unfolding colonPos_def by (rule drop_takeWhile_length)
      finally have v: "strip_cr (drop 1 (dropWhile (\<lambda>x. x \<noteq> CHR '':'') line)) = val"
        unfolding val_def by simp
      from c k v have he: "header_entry line = Some (key, val)" by (simp add: header_entry_def)
      from False have a: "line \<noteq> [CHR 0x0D]" "line \<noteq> []" by simp_all
      have p: "parse_headers (line # ls) h = parse_headers ls (h(key \<mapsto> val))"
        by (simp only: parse_headers.simps(2) a simp_thms if_False f option.case Let_def key_def
            val_def strip_cr_def)
      have "(h(key \<mapsto> val)) ++ m = h ++ ([key \<mapsto> val] ++ m)" for m :: "string \<rightharpoonup> string"
        by (rule ext) (simp add: map_add_def split: option.splits)
      then show ?thesis
        unfolding p Cons.IH[of "h(key \<mapsto> val)"]
        using False he by (simp add: List.map_filter_simps(2))
    qed
  qed
qed

text \<open>The answer to a request under one of the three prefixes, as a function of the path.\<close>

lemma dispatch_on_prefix:
  assumes "take 8 (req_path req) = ''/course/'' \<or> take 5 (req_path req) = ''/css/''
           \<or> take 4 (req_path req) = ''/js/''"
  shows "dispatch srv req = prefix_response srv (req_path req)"
proof -
  let ?p = "req_path req"
  have l: "length ''/course/'' = 8" "length ''/css/'' = 5" "length ''/js/'' = 4" by simp_all
  have c: "str_find ?p ''/course/'' 0 = Some 0 \<longleftrightarrow> take 8 ?p = ''/course/''"
    unfolding str_find_0 l ..
  have s: "str_find ?p ''/css/'' 0 = Some 0 \<longleftrightarrow> take 5 ?p = ''/css/''"
    unfolding str_find_0 l ..
  have j: "str_find ?p ''/js/'' 0 = Some 0 \<longleftrightarrow> take 4 ?p = ''/js/''"
    unfolding str_find_0 l ..
  show ?thesis
  proof (cases "take 8 ?p = ''/course/''")
    case False
    with assms have "take 5 ?p = ''/css/'' \<or> take 4 ?p = ''/js/''" by simp
    with False show ?thesis
      by (simp add: dispatch_def prefix_response_def Let_def c s j)
  next
    case True
    define coursePath where "coursePath = drop 8 ?p"
    have e: "dispatch srv req =
        (case str_find coursePath ''/'' 0 of
           Some slashPos \<Rightarrow>
             \<lparr>statusCode = 200, contentType = ''text/html'',
              responseBody = generateCoursePage srv (take slashPos coursePath)
                               (drop (slashPos + 1) coursePath)\<rparr>
         | None \<Rightarrow>
             \<lparr>statusCode = 400, contentType = ''text/plain'',
              responseBody = ''Invalid course path''\<rparr>)"
      using True unfolding coursePath_def by (simp add: dispatch_def Let_def c)
    have r: "prefix_response srv ?p =
        (if CHR ''/'' \<in> set coursePath
         then \<lparr>statusCode = 200, contentType = ''text/html'',
               responseBody = generateCoursePage srv
                 (takeWhile (\<lambda>c. c \<noteq> CHR ''/'') coursePath)
                 (drop 1 (dropWhile (\<lambda>c. c \<noteq> CHR ''/'') coursePath))\<rparr>
         else \<lparr>statusCode = 400, contentType = ''text/plain'',
               responseBody = ''Invalid course path''\<rparr>)"
      using True unfolding coursePath_def by (simp add: prefix_response_def)
    show ?thesis
    proof (cases "CHR ''/'' \<in> set coursePath")
      case False
      then have "str_find coursePath ''/'' 0 = None" by (simp add: str_find_char)
      with False show ?thesis unfolding e r by simp
    next
      case sl: True
      define k where "k = length (takeWhile (\<lambda>c. c \<noteq> CHR ''/'') coursePath)"
      from sl have f: "str_find coursePath ''/'' 0 = Some k" by (simp add: str_find_char k_def)
      have t: "take k coursePath = takeWhile (\<lambda>c. c \<noteq> CHR ''/'') coursePath"
        unfolding k_def by (rule takeWhile_eq_take[symmetric])
      have "drop (k + 1) coursePath = drop 1 (drop k coursePath)" by simp
      also have "drop k coursePath = dropWhile (\<lambda>c. c \<noteq> CHR ''/'') coursePath"
        unfolding k_def by (rule drop_takeWhile_length)
      finally have d: "drop (k + 1) coursePath
          = drop 1 (dropWhile (\<lambda>c. c \<noteq> CHR ''/'') coursePath)" .
      show ?thesis unfolding e r f option.case t d using sl by simp
    qed
  qed
qed

section \<open>Facts about the renderer\<close>

lemma trim_front:
  "erase s 0 (find_first_not_of s ws) = Some (dropWhile (\<lambda>c. c \<in> set ws) s)"
proof -
  define k where "k = length (takeWhile (\<lambda>c. c \<in> set ws) s)"
  have f: "find_first_not_of s ws = (if k < length s then Some k else None)"
    by (simp add: find_first_not_of_def k_def)
  have d: "drop k s = dropWhile (\<lambda>c. c \<in> set ws) s"
    unfolding k_def by (rule drop_takeWhile_length)
  show ?thesis
  proof (cases "k < length s")
    case True
    with f d show ?thesis by (simp add: erase_def)
  next
    case False
    with d have e: "dropWhile (\<lambda>c. c \<in> set ws) s = []" by (metis drop_all not_less)
    from False f have n: "find_first_not_of s ws = None" by simp
    show ?thesis unfolding n e by (simp add: erase_def)
  qed
qed

lemma trim_back:
  "erase s (case find_last_not_of s ws of None \<Rightarrow> 0 | Some i \<Rightarrow> i + 1) None
     = Some (rev (dropWhile (\<lambda>c. c \<in> set ws) (rev s)))"
proof -
  define k where "k = length (takeWhile (\<lambda>c. c \<in> set ws) (rev s))"
  have f: "find_last_not_of s ws = (if k < length s then Some (length s - 1 - k) else None)"
    by (simp add: find_last_not_of_def k_def)
  have d: "drop k (rev s) = dropWhile (\<lambda>c. c \<in> set ws) (rev s)"
    unfolding k_def by (rule drop_takeWhile_length)
  show ?thesis
  proof (cases "k < length s")
    case True
    then have p: "length s - 1 - k + 1 = length s - k" by simp
    have "take (length s - k) s = rev (drop k (rev s))" by (simp add: rev_drop)
    with d have t: "take (length s - k) s = rev (dropWhile (\<lambda>c. c \<in> set ws) (rev s))" by simp
    from True f p have n: "(case find_last_not_of s ws of None \<Rightarrow> 0 | Some i \<Rightarrow> i + 1) = length s - k"
      by simp
    have "erase s (length s - k) None = Some (take (length s - k) s)" by (simp add: erase_def)
    then show ?thesis unfolding n t .
  next
    case False
    with d have e: "dropWhile (\<lambda>c. c \<in> set ws) (rev s) = []"
      by (metis drop_all not_less length_rev)
    from False f have n: "(case find_last_not_of s ws of None \<Rightarrow> 0 | Some i \<Rightarrow> i + 1) = 0"
      by simp
    show ?thesis unfolding n e by (simp add: erase_def)
  qed
qed

lemma trim_eq:
  "trim s ws = Some (rev (dropWhile (\<lambda>c. c \<in> set ws) (rev (dropWhile (\<lambda>c. c \<in> set ws) s))))"
  by (simp add: trim_def trim_front trim_back)

lemma substr_in_range: "pos \<le> length s \<Longrightarrow> substr s pos n = Some (take n (drop pos s))"
  by (simp add: substr_def)

lemma codeBlockHtml_total:
  assumes "start + 3 \<le> end'" and "end' \<le> length html"
  shows "\<exists>codeHtml. codeBlockHtml html start end' = Some codeHtml"
proof -
  from assms have a: "start + 3 \<le> length html" by simp
  show ?thesis
  proof (cases "str_find html [CHR 0x0A] (start + 3)")
    case None
    then show ?thesis
      using a by (simp add: codeBlockHtml_def Let_def substr_in_range trim_eq)
  next
    case (Some nl)
    show ?thesis
    proof (cases "nl < end'")
      case True
      with assms have "nl + 1 \<le> length html" by simp
      with Some True a show ?thesis
        by (simp add: codeBlockHtml_def Let_def substr_in_range trim_eq)
    next
      case False
      with Some a show ?thesis
        by (simp add: codeBlockHtml_def Let_def substr_in_range trim_eq)
    qed
  qed
qed

lemma codeBlockLoop_total: "\<exists>out. codeBlockLoop html pos = Some out"
proof (induction html pos rule: codeBlockLoop.induct)
  case (1 html pos)
  show ?case
  proof (cases "str_find html ''```'' pos")
    case None
    then show ?thesis by (simp add: codeBlockLoop.simps[of html pos])
  next
    case (Some start)
    note s = Some
    show ?thesis
    proof (cases "str_find html ''```'' (start + 3)")
      case None
      with s show ?thesis by (simp add: codeBlockLoop.simps[of html pos])
    next
      case (Some end')
      have l3: "length ''```'' = 3" by simp
      from str_find_Some(1,2)[OF Some] have b: "start + 3 \<le> end'" and c: "end' + 3 \<le> length html"
        unfolding l3 by simp_all
      from b c codeBlockHtml_total[of start end' html]
      obtain codeHtml where h: "codeBlockHtml html start end' = Some codeHtml" by auto
      from b c have "start \<le> length html" by simp
      then obtain html' where r: "str_replace html start (end' - start + 3) codeHtml = Some html'"
        by (simp add: str_replace_def)
      from "1.IH"[OF s Some h r] obtain out
        where "codeBlockLoop html' (start + length codeHtml) = Some out" by blast
      with s Some h r show ?thesis by (simp add: codeBlockLoop.simps[of html pos])
    qed
  qed
qed

lemma six_chars_differ: "take 6 xs \<noteq> ''</code>''"
proof
  assume "take 6 xs = ''</code>''"
  then have "length (take 6 xs) = length ''</code>''" by (rule arg_cong)
  then show False by simp
qed

lemma insideCodeBlock_never: "insideCodeBlock html pos \<noteq> Some True"
  using six_chars_differ by (auto simp: insideCodeBlock_def substr_def split: if_splits)

lemma insideCodeBlock_False:
  assumes "pos \<le> length html"
  shows "insideCodeBlock html pos = Some False"
proof (cases "pos > 0")
  case True
  with assms have "pos - 1 \<le> length html" by simp
  then have "substr html (pos - 1) 6 = Some (take 6 (drop (pos - 1) html))"
    by (rule substr_in_range)
  with True six_chars_differ show ?thesis by (simp add: insideCodeBlock_def)
next
  case False
  then show ?thesis by (simp add: insideCodeBlock_def)
qed

lemma inlineCodeLoop_total: "\<exists>out. inlineCodeLoop html pos0 = Some out"
proof (induction html pos0 rule: inlineCodeLoop.induct)
  case (1 html pos0)
  have l1: "length ''`'' = 1" by simp
  show ?case
  proof (cases "str_find html ''`'' pos0")
    case None
    then show ?thesis by (simp add: inlineCodeLoop.simps[of html pos0])
  next
    case (Some pos)
    note s = Some
    from str_find_Some(2)[OF s] have pl: "pos + 1 \<le> length html" unfolding l1 .
    then have i: "insideCodeBlock html pos = Some False" by (intro insideCodeBlock_False) simp
    show ?thesis
    proof (cases "str_find html ''`'' (pos + 1)")
      case None
      with s i show ?thesis by (simp add: inlineCodeLoop.simps[of html pos0])
    next
      case (Some end')
      from str_find_Some(1,2)[OF Some] have b: "pos + 1 \<le> end'" and c: "end' + 1 \<le> length html"
        unfolding l1 by simp_all
      from pl have c1: "substr html (pos + 1) (end' - pos - 1)
          = Some (take (end' - pos - 1) (drop (pos + 1) html))"
        by (intro substr_in_range)
      define codeHtml where "codeHtml = ''<code>'' @ take (end' - pos - 1) (drop (pos + 1) html) @ ''</code>''"
      from pl have "pos \<le> length html" by simp
      then obtain html' where r: "str_replace html pos (end' - pos + 1) codeHtml = Some html'"
        by (simp add: str_replace_def)
      have "\<exists>out. inlineCodeLoop html' (pos + length codeHtml) = Some out"
        by (rule "1.IH"(2)[OF s i _ Some c1 codeHtml_def r]) simp
      then obtain out where "inlineCodeLoop html' (pos + length codeHtml) = Some out" by blast
      with s i Some c1 r show ?thesis
        by (simp add: inlineCodeLoop.simps[of html pos0] codeHtml_def Let_def)
    qed
  qed
qed

lemma processCodeBlocks_total: "\<exists>out. processCodeBlocks markdown = Some out"
proof -
  from codeBlockLoop_total obtain html where h: "codeBlockLoop markdown 0 = Some html" by blast
  from inlineCodeLoop_total obtain out where "inlineCodeLoop html 0 = Some out" by blast
  with h show ?thesis by (simp add: processCodeBlocks_def)
qed

lemma boldLoop_total: "\<exists>out. boldLoop html pos = Some out"
proof (induction html pos rule: boldLoop.induct)
  case (1 html pos)
  have l2: "length ''**'' = 2" by simp
  show ?case
  proof (cases "str_find html ''**'' pos")
    case None
    then show ?thesis by (simp add: boldLoop.simps[of html pos])
  next
    case (Some start)
    note s = Some
    show ?thesis
    proof (cases "str_find html ''**'' (start + 2)")
      case None
      with s show ?thesis by (simp add: boldLoop.simps[of html pos])
    next
      case (Some end')
      from str_find_Some(1,2)[OF Some] have b: "start + 2 \<le> end'" and c: "end' + 2 \<le> length html"
        unfolding l2 by simp_all
      define boldText where "boldText = take (end' - start - 2) (drop (start + 2) html)"
      from b c have t: "substr html (start + 2) (end' - start - 2) = Some boldText"
        unfolding boldText_def by (intro substr_in_range) simp
      from b c have "start \<le> length html" by simp
      then obtain html' where r: "str_replace html start (end' - start + 2)
            (''<strong>'' @ boldText @ ''</strong>'') = Some html'"
        by (simp add: str_replace_def)
      from "1.IH"[OF s Some t r] obtain out
        where "boldLoop html' (start + 8 + length boldText) = Some out" by blast
      with s Some t r show ?thesis by (simp add: boldLoop.simps[of html pos])
    qed
  qed
qed

lemma processBoldText_total: "\<exists>out. processBoldText markdown = Some out"
  by (simp add: processBoldText_def boldLoop_total)

lemma processCell_total: "\<exists>td. processCell cell0 = Some td"
proof -
  obtain cell where c: "trim cell0 [CHR '' '', CHR 0x09] = Some cell" by (simp add: trim_eq)
  from boldLoop_total obtain b where b: "boldLoop cell 0 = Some b" by blast
  from c b show ?thesis by (simp add: processCell_def)
qed

lemma processCells_total: "\<exists>tds. processCells cells = Some tds"
proof (induction cells)
  case Nil
  show ?case by simp
next
  case (Cons cell cells)
  from processCell_total obtain td where "processCell cell = Some td" by blast
  moreover from Cons obtain tds where "processCells cells = Some tds" by blast
  ultimately show ?case by simp
qed

lemma processTableRow_total: "\<exists>tr. processTableRow row = Some tr"
proof -
  from processCells_total obtain tds
    where "processCells (drop 1 (getlines_from [] CHR ''|'' row)) = Some tds" by blast
  then show ?thesis by (simp add: processTableRow_def)
qed

lemma tableLoop_total: "\<exists>out. tableLoop ls inTable result = Some out"
proof (induction ls inTable result rule: tableLoop.induct)
  case (1 inTable result)
  show ?case by (simp add: tableLoop.simps(1))
next
  case (2 currentLine rest inTable result)
  show ?case
  proof (cases "isTableRow currentLine")
    case False
    with "2.IH"(4) show ?thesis by (simp add: tableLoop.simps(2))
  next
    case True
    from processTableRow_total obtain processedRow
      where p: "processTableRow currentLine = Some processedRow" by blast
    let ?r = "result @ (if \<not> inTable then tableOpen else []) @ processedRow"
    have e: "tableLoop (currentLine # rest) inTable result =
        (case rest of
           [] \<Rightarrow> tableLoop [] True ?r
         | nextLine # rest' \<Rightarrow>
             if isSeparator nextLine then tableLoop rest' True ?r
             else tableLoop rest True ?r)"
      using True p by (simp add: tableLoop.simps(2) Let_def)
    show ?thesis
    proof (cases rest)
      case Nil
      then show ?thesis unfolding e by (simp add: tableLoop.simps(1))
    next
      case (Cons nextLine rest')
      show ?thesis
      proof (cases "isSeparator nextLine")
        case s: True
        from "2.IH"(2)[OF True p refl Cons s] show ?thesis
          unfolding e by (simp add: Cons s)
      next
        case s: False
        from "2.IH"(3)[OF True p refl Cons s] show ?thesis
          unfolding e by (simp add: Cons s)
      qed
    qed
  qed
qed

lemma processTables_total: "\<exists>out. processTables markdown = Some out"
  by (simp add: processTables_def tableLoop_total)

lemma getlines_from_no_delim:
  "d \<notin> set a \<Longrightarrow> getlines_from cur d a = (if cur @ a = [] then [] else [cur @ a])"
  by (induction a arbitrary: cur) auto

lemma getlines_from_line:
  "d \<notin> set a \<Longrightarrow> getlines_from cur d (a @ d # s) = (cur @ a) # getlines_from [] d s"
  by (induction a arbitrary: cur) auto

lemma getlines_three:
  assumes "CHR 0x0A \<notin> set a" "CHR 0x0A \<notin> set b" "CHR 0x0A \<notin> set c" "c \<noteq> []"
  shows "getlines (a @ [CHR 0x0A] @ b @ [CHR 0x0A] @ c) = [a, b, c]"
proof -
  have e: "a @ [CHR 0x0A] @ b @ [CHR 0x0A] @ c = a @ CHR 0x0A # (b @ CHR 0x0A # c)" by simp
  have "getlines_from [] CHR 0x0A (a @ CHR 0x0A # (b @ CHR 0x0A # c))
      = ([] @ a) # getlines_from [] CHR 0x0A (b @ CHR 0x0A # c)"
    by (rule getlines_from_line[OF assms(1)])
  also have "getlines_from [] CHR 0x0A (b @ CHR 0x0A # c) = ([] @ b) # getlines_from [] CHR 0x0A c"
    by (rule getlines_from_line[OF assms(2)])
  also have "getlines_from [] CHR 0x0A c = (if [] @ c = [] then [] else [[] @ c])"
    by (rule getlines_from_no_delim[OF assms(3)])
  finally show ?thesis unfolding getlines_def e using assms(4) by simp
qed

lemma isSeparator_no_newline: "isSeparator s \<Longrightarrow> CHR 0x0A \<notin> set s"
proof
  assume a: "isSeparator s" and b: "CHR 0x0A \<in> set s"
  from a have "\<forall>c\<in>set s. c = CHR ''|'' \<or> c = CHR ''-'' \<or> c = CHR '' ''"
    unfolding isSeparator_def list_all_iff .
  from this b have "CHR 0x0A = CHR ''|'' \<or> CHR 0x0A = CHR ''-'' \<or> CHR 0x0A = CHR '' ''"
    by (rule bspec)
  then show False by simp
qed

lemma processCell_td: "\<exists>c. processCell cell0 = Some (tdOpen @ c @ tdClose)"
proof -
  obtain cell where c: "trim cell0 [CHR '' '', CHR 0x09] = Some cell" by (simp add: trim_eq)
  from boldLoop_total obtain b where b: "boldLoop cell 0 = Some b" by blast
  define cell' where "cell' = (if str_find cell ''**'' 0 \<noteq> None then b else cell)"
  from c b have "processCell cell0 = Some (tdOpen @ cell' @ tdClose)"
    by (simp add: processCell_def cell'_def)
  then show ?thesis by - (rule exI[where x = cell'], assumption)
qed

lemma processCells_tds:
  "\<exists>cs. length cs = length cells
     \<and> processCells cells = Some (concat (map (\<lambda>c. tdOpen @ c @ tdClose) cs))"
proof (induction cells)
  case Nil
  show ?case by simp
next
  case (Cons cell cells)
  from processCell_td obtain c where c: "processCell cell = Some (tdOpen @ c @ tdClose)" ..
  from Cons obtain cs where cs: "length cs = length cells"
    "processCells cells = Some (concat (map (\<lambda>c. tdOpen @ c @ tdClose) cs))"
    by (elim exE conjE) (rule that)
  from c cs have "length (c # cs) = length (cell # cells)
     \<and> processCells (cell # cells) = Some (concat (map (\<lambda>c. tdOpen @ c @ tdClose) (c # cs)))"
    by simp
  then show ?case by - (rule exI[where x = "c # cs"], assumption)
qed

lemma processTableRow_tr:
  "\<exists>cs. processTableRow row
     = Some (trOpen @ concat (map (\<lambda>c. tdOpen @ c @ tdClose) cs) @ trClose)"
proof -
  from processCells_tds[of "drop 1 (getlines_from [] CHR ''|'' row)"] obtain cs
    where "processCells (drop 1 (getlines_from [] CHR ''|'' row))
       = Some (concat (map (\<lambda>c. tdOpen @ c @ tdClose) cs))"
    by (elim exE conjE) (rule that)
  then have "processTableRow row
     = Some (trOpen @ concat (map (\<lambda>c. tdOpen @ c @ tdClose) cs) @ trClose)"
    by (simp add: processTableRow_def)
  then show ?thesis by - (rule exI[where x = cs], assumption)
qed

lemma rx_match_consumes:
  "st' \<in> set (rx_match r st) \<Longrightarrow> length (remaining st') + rx_min r \<le> length (remaining st)"
proof (induction r st arbitrary: st' rule: rx_match.induct)
  case (1 cc st)
  show ?case
  proof (cases "remaining st")
    case Nil
    with 1 show ?thesis by (simp add: rx_match.simps(1))
  next
    case (Cons c cs)
    with 1 have "remaining st' = cs" by (simp add: rx_match.simps(1) split: if_splits)
    with Cons show ?thesis by simp
  qed
next
  case (2 st)
  then have "st' = st" by (simp add: rx_match.simps(2) split: option.splits if_splits)
  then show ?case by simp
next
  case (3 st)
  then have "st' = st" by (simp add: rx_match.simps(3) split: list.splits if_splits)
  then show ?case by simp
next
  case (4 r1 r2 st)
  from 4(3) obtain m where m: "m \<in> set (rx_match r1 st)" and s: "st' \<in> set (rx_match r2 m)"
    by (auto simp: rx_match.simps(4))
  from 4(1)[OF m] 4(2)[OF m s] show ?case by simp
next
  case (5 r st)
  from rx_match_suffix[OF 5(3)] obtain u where "remaining st = u @ remaining st'" by blast
  then have "length (remaining st) = length (u @ remaining st')" by (rule arg_cong)
  then show ?case by simp
next
  case (6 r st)
  from rx_match_suffix[OF 6(3)] obtain u where "remaining st = u @ remaining st'" by blast
  then have "length (remaining st) = length (u @ remaining st')" by (rule arg_cong)
  then show ?case by simp
next
  case (7 n r st)
  then obtain m where m: "m \<in> set (rx_match r st)" and "remaining st' = remaining m"
    by (auto simp: rx_match.simps(7))
  with 7(1)[OF m] show ?case by simp
qed

lemma rx_search_nonempty:
  assumes "rx_search r skipped p s = Some (pre, st, m)" and "0 < rx_min r"
  shows "m \<noteq> []"
  using assms(1)
proof (induction s arbitrary: skipped p)
  case Nil
  then obtain sts where "rx_match r \<lparr>prevChar = p, remaining = [], captures = Map.empty\<rparr> = st # sts"
    by (auto split: list.splits)
  then have "st \<in> set (rx_match r \<lparr>prevChar = p, remaining = [], captures = Map.empty\<rparr>)"
    by simp
  from rx_match_consumes[OF this] assms(2) show ?case by simp
next
  case (Cons c cs)
  show ?case
  proof (cases "rx_match r \<lparr>prevChar = p, remaining = c # cs, captures = Map.empty\<rparr>")
    case Nil
    with Cons.prems have "rx_search r (skipped @ [c]) (Some c) cs = Some (pre, st, m)" by simp
    from Cons.IH[OF this] show ?thesis .
  next
    case (Cons st0 sts)
    with Cons.prems have e: "st = st0"
      "m = take (length (c # cs) - length (remaining st)) (c # cs)" by auto
    from Cons e have "st \<in> set (rx_match r \<lparr>prevChar = p, remaining = c # cs, captures = Map.empty\<rparr>)"
      by simp
    from rx_match_consumes[OF this] assms(2)
    have "length (remaining st) < length (c # cs)" by simp
    then have "0 < length (take (length (c # cs) - length (remaining st)) (c # cs))" by simp
    with e(2) show ?thesis by auto
  qed
qed

lemma rx_min_lits: "rx_min (lits cs r) = length cs + rx_min r"
  by (induction cs) simp_all

lemma patterns_consume:
  "0 < rx_min (headerRegex hashes)" "0 < rx_min ulRegex" "0 < rx_min ulWrapRegex"
  "0 < rx_min olRegex" "0 < rx_min linkRegex" "0 < rx_min tagRegex"
  by (simp_all add: headerRegex_def ulRegex_def ulWrapRegex_def olRegex_def linkRegex_def
      tagRegex_def Plus_def rx_min_lits)

lemma markdownToHtml_Some: "\<exists>html. markdownToHtml markdown = Some html"
proof -
  from processCodeBlocks_total obtain h1
    where a: "processCodeBlocks (processHeaders markdown) = Some h1" by blast
  from processBoldText_total obtain h2 where b: "processBoldText h1 = Some h2" by blast
  from processTables_total obtain h3
    where c: "processTables (processLinks (processLists h2)) = Some h3" by blast
  from a b c show ?thesis by (simp add: markdownToHtml_def)
qed

section \<open>Facts about the loader\<close>

lemma sortLessonsInModule_lessons:
  "(\<forall>desiredOrder. lessonOrder (name m) = Some desiredOrder \<and> distinct (lessons m) \<longrightarrow>
      lessons (sortLessonsInModule m) =
        filter (\<lambda>l. l \<in> set (lessons m)) desiredOrder
        @ filter (\<lambda>l. l \<notin> set desiredOrder) (lessons m))
   \<and> (lessonOrder (name m) = None \<longrightarrow> sortLessonsInModule m = m)"
proof (intro conjI allI impI)
  fix desiredOrder
  assume "lessonOrder (name m) = Some desiredOrder \<and> distinct (lessons m)"
  then have o: "lessonOrder (name m) = Some desiredOrder" and d: "distinct (lessons m)"
    by simp_all
  obtain sl sd where a: "add_desired m desiredOrder ([], Map.empty) = (sl, sd)"
    by (cases "add_desired m desiredOrder ([], Map.empty)")
  from add_desired_fst[of m desiredOrder "[]" Map.empty] a
  have sl: "sl = filter (\<lambda>l. l \<in> set (lessons m)) desiredOrder" by simp
  obtain sl' sd' where b: "add_remaining m (lessons m) (sl, sd) = (sl', sd')"
    by (cases "add_remaining m (lessons m) (sl, sd)")
  from add_remaining_fst[OF d, of m sl sd] b
  have sl': "sl' = sl @ filter (\<lambda>l. l \<notin> set sl) (lessons m)" by simp
  have "filter (\<lambda>l. l \<notin> set sl) (lessons m) = filter (\<lambda>l. l \<notin> set desiredOrder) (lessons m)"
    unfolding sl by (intro filter_cong) auto
  with sl sl' have "sl' = filter (\<lambda>l. l \<in> set (lessons m)) desiredOrder
        @ filter (\<lambda>l. l \<notin> set desiredOrder) (lessons m)" by simp
  moreover have "lessons (sortLessonsInModule m) = sl'"
    by (simp add: sortLessonsInModule_def o a b)
  ultimately show "lessons (sortLessonsInModule m) =
        filter (\<lambda>l. l \<in> set (lessons m)) desiredOrder
        @ filter (\<lambda>l. l \<notin> set desiredOrder) (lessons m)" by simp
next
  assume "lessonOrder (name m) = None"
  then show "sortLessonsInModule m = m" by (simp add: sortLessonsInModule_def)
qed

lemma path_stem_extension: "path_stem f @ path_extension f = f"
proof (cases "path_extension f = []")
  case True
  then show ?thesis by (simp add: path_stem_def)
next
  case False
  define j where "j = length f - 1 - length (takeWhile (\<lambda>c. c \<noteq> CHR ''.'') (rev f))"
  from False have e: "path_extension f = drop j f"
    by (auto simp: path_extension_def Let_def j_def split: if_splits)
  have "j \<le> length f" by (simp add: j_def)
  then have "length f - length (drop j f) = j" by simp
  then show ?thesis unfolding path_stem_def e by simp
qed

lemma distinct_stems:
  assumes "distinct fs"
  shows "distinct (map path_stem (filter (\<lambda>f. path_extension f = e) fs))"
proof -
  have "inj_on path_stem {f. path_extension f = e}"
  proof (rule inj_onI)
    fix x y assume "x \<in> {f. path_extension f = e}" "y \<in> {f. path_extension f = e}"
      and s: "path_stem x = path_stem y"
    then have "path_extension x = path_extension y" by simp
    with s have "path_stem x @ path_extension x = path_stem y @ path_extension y" by simp
    then show "x = y" unfolding path_stem_extension .
  qed
  then have "inj_on path_stem (set (filter (\<lambda>f. path_extension f = e) fs))"
    by (rule inj_on_subset) auto
  with assms show ?thesis by (simp add: distinct_map)
qed

lemma loadLessons_Some:
  "\<exists>m'. loadLessons entries m = Some m'
      \<and> lessons m' = lessons m @ discovered_lessons entries \<and> name m' = name m"
proof (induction entries arbitrary: m)
  case Nil
  show ?case by (simp add: discovered_lessons_def)
next
  case (Cons e entries)
  obtain fileName lessonEntry where e: "e = (fileName, lessonEntry)" by (cases e)
  show ?case
  proof (cases "path_extension fileName = ''.md''")
    case False
    with Cons.IH[of m] show ?thesis by (simp add: e discovered_lessons_def)
  next
    case True
    define m1 where "m1 = m\<lparr>lessons := lessons m @ [path_stem fileName]\<rparr>"
    show ?thesis
    proof (cases "parseMarkdownFile lessonEntry")
      case None
      with True Cons.IH[of m1] show ?thesis
        by (simp add: e discovered_lessons_def m1_def Let_def)
    next
      case (Some lesson)
      from markdownToHtml_Some obtain html where h: "markdownToHtml (content lesson) = Some html"
        by blast
      define m2 where "m2 = m1\<lparr>lessonData := (lessonData m1)
            (path_stem fileName \<mapsto> lesson\<lparr>htmlContent := html\<rparr>)\<rparr>"
      from True Some h Cons.IH[of m2] show ?thesis
        by (simp add: e discovered_lessons_def m1_def m2_def Let_def)
    qed
  qed
qed

lemma map_of_map_set: "map_of (map_set k v m) = (map_of m)(k \<mapsto> v)"
  by (induction m) (auto simp: fun_eq_iff)

lemma loadModules_completes:
  "\<exists>ms'. loadModules es ms = (ms', True)
      \<and> (\<forall>k. k \<notin> set (map fst es) \<longrightarrow> map_of ms' k = map_of ms k)"
proof (induction es ms rule: loadModules.induct)
  case (1 ms)
  show ?case by simp
next
  case (2 moduleName fileText entries ms)
  then show ?case by auto
next
  case (3 moduleName lessonEntries entries ms)
  let ?m0 = "\<lparr>name = moduleName, lessons = [], lessonData = Map.empty\<rparr>"
  from loadLessons_Some[of lessonEntries ?m0] obtain m
    where m: "loadLessons lessonEntries ?m0 = Some m" by blast
  from "3.IH"[OF m] obtain ms' where a: "loadModules entries (map_set moduleName (sortLessonsInModule m) ms) = (ms', True)"
    and b: "\<forall>k. k \<notin> set (map fst entries) \<longrightarrow>
        map_of ms' k = map_of (map_set moduleName (sortLessonsInModule m) ms) k" by blast
  from m a have "loadModules ((moduleName, Directory lessonEntries) # entries) ms = (ms', True)"
    by simp
  moreover from b have "\<forall>k. k \<notin> set (map fst ((moduleName, Directory lessonEntries) # entries)) \<longrightarrow>
        map_of ms' k = map_of ms k"
    by (simp add: map_of_map_set)
  ultimately show ?case by blast
qed

lemma loadModules_module:
  assumes "distinct (map fst es)" and "(moduleName, Directory lessonEntries) \<in> set es"
    and "loadLessons lessonEntries \<lparr>name = moduleName, lessons = [], lessonData = Map.empty\<rparr> = Some m"
  shows "map_of (fst (loadModules es ms)) moduleName = Some (sortLessonsInModule m)"
  using assms(1,2)
proof (induction es ms rule: loadModules.induct)
  case (1 ms)
  then show ?case by simp
next
  case (2 name' fileText entries ms)
  then show ?case by auto
next
  case (3 name' lessonEntries' entries ms)
  let ?m0 = "\<lparr>name = name', lessons = [], lessonData = Map.empty\<rparr>"
  from loadLessons_Some[of lessonEntries' ?m0] obtain m'
    where m': "loadLessons lessonEntries' ?m0 = Some m'" by blast
  have step: "loadModules ((name', Directory lessonEntries') # entries) ms
      = loadModules entries (map_set name' (sortLessonsInModule m') ms)"
    using m' by simp
  show ?case
  proof (cases "(moduleName, Directory lessonEntries) \<in> set entries")
    case True
    from "3.prems"(1) have "distinct (map fst entries)" by simp
    from "3.IH"[OF m' this True] show ?thesis unfolding step .
  next
    case False
    with "3.prems"(2) have eq: "name' = moduleName" "lessonEntries' = lessonEntries" by auto
    with m' assms(3) have mm: "m' = m" by simp
    from "3.prems"(1) eq have notin: "moduleName \<notin> set (map fst entries)" by simp
    from loadModules_completes[of entries "map_set name' (sortLessonsInModule m') ms"] notin
    have "map_of (fst (loadModules entries (map_set name' (sortLessonsInModule m') ms))) moduleName
        = map_of (map_set name' (sortLessonsInModule m') ms) moduleName"
      by auto
    then show ?thesis unfolding step by (simp add: map_of_map_set eq mm)
  qed
qed

section \<open>Facts about the matcher on a bounded stack\<close>

lemma regex_replace_from_within_sound:
  "regex_replace_from_within d r fmt p s = Some out \<Longrightarrow> out = regex_replace_from r fmt p s"
proof (induction d r fmt p s arbitrary: out rule: regex_replace_from_within.induct)
  case (1 d r fmt p s)
  note w = regex_replace_from_within.simps[of d r fmt p s]
  note i = regex_replace_from.simps[of r fmt p s]
  from "1.prems" obtain found where f: "rx_search_within d r [] p s = Some found"
    unfolding w by (auto split: option.splits)
  from rx_search_within_sound[OF f] have g: "rx_search r [] p s = found" by simp
  show ?case
  proof (cases found)
    case None
    with "1.prems" f g show ?thesis unfolding w i by simp
  next
    case (Some t)
    obtain pre st m where t: "t = (pre, st, m)" by (cases t)
    from f Some t have f': "rx_search_within d r [] p s = Some (Some (pre, st, m))" by simp
    from g Some t have g': "rx_search r [] p s = Some (pre, st, m)" by simp
    show ?thesis
    proof (cases "m = []")
      case True
      show ?thesis
      proof (cases "remaining st")
        case Nil
        with "1.prems" True show ?thesis unfolding w i f' g' by simp
      next
        case (Cons c cs)
        with "1.prems" True obtain rest
          where a: "regex_replace_from_within d r fmt (Some c) cs = Some rest"
            and b: "out = pre @ rx_format fmt st m @ c # rest"
          unfolding w f' by (auto split: option.splits)
        from "1.IH"(1)[OF f' refl refl refl True Cons a]
        have "rest = regex_replace_from r fmt (Some c) cs" .
        with b True Cons show ?thesis unfolding i g' by simp
      qed
    next
      case False
      with "1.prems" obtain rest
        where a: "regex_replace_from_within d r fmt (Some (last m)) (remaining st) = Some rest"
          and b: "out = pre @ rx_format fmt st m @ rest"
        unfolding w f' by (auto split: option.splits)
      from "1.IH"(2)[OF f' refl refl refl False a]
      have "rest = regex_replace_from r fmt (Some (last m)) (remaining st)" .
      with b False show ?thesis unfolding i g' by simp
    qed
  qed
qed

lemma regex_replace_from_within_mono:
  assumes "d \<le> d'"
  shows "regex_replace_from_within d r fmt p s = Some out
     \<Longrightarrow> regex_replace_from_within d' r fmt p s = Some out"
  using assms
proof (induction d r fmt p s arbitrary: out rule: regex_replace_from_within.induct)
  case (1 d r fmt p s)
  note le = "1.prems"(2)
  note w = regex_replace_from_within.simps[of d r fmt p s]
  note w' = regex_replace_from_within.simps[of d' r fmt p s]
  from "1.prems"(1) obtain found where f: "rx_search_within d r [] p s = Some found"
    unfolding w by (auto split: option.splits)
  from rx_search_within_mono[OF le f] have g: "rx_search_within d' r [] p s = Some found" .
  show ?case
  proof (cases found)
    case None
    with "1.prems"(1) f g show ?thesis unfolding w w' by simp
  next
    case (Some t)
    obtain pre st m where t: "t = (pre, st, m)" by (cases t)
    from f Some t have f': "rx_search_within d r [] p s = Some (Some (pre, st, m))" by simp
    from g Some t have g': "rx_search_within d' r [] p s = Some (Some (pre, st, m))" by simp
    show ?thesis
    proof (cases "m = []")
      case True
      show ?thesis
      proof (cases "remaining st")
        case Nil
        with "1.prems"(1) True show ?thesis unfolding w w' f' g' by simp
      next
        case (Cons c cs)
        with "1.prems"(1) True obtain rest
          where a: "regex_replace_from_within d r fmt (Some c) cs = Some rest"
            and b: "out = pre @ rx_format fmt st m @ c # rest"
          unfolding w f' by (auto split: option.splits)
        from "1.IH"(1)[OF f' refl refl refl True Cons a le]
        have "regex_replace_from_within d' r fmt (Some c) cs = Some rest" .
        with b True Cons show ?thesis unfolding w' g' by simp
      qed
    next
      case False
      with "1.prems"(1) obtain rest
        where a: "regex_replace_from_within d r fmt (Some (last m)) (remaining st) = Some rest"
          and b: "out = pre @ rx_format fmt st m @ rest"
        unfolding w f' by (auto split: option.splits)
      from "1.IH"(2)[OF f' refl refl refl False a le]
      have "regex_replace_from_within d' r fmt (Some (last m)) (remaining st) = Some rest" .
      with b False show ?thesis unfolding w' g' by simp
    qed
  qed
qed

lemma regex_replace_from_within_enough:
  "\<exists>d. regex_replace_from_within d r fmt p s = Some (regex_replace_from r fmt p s)"
proof (induction r fmt p s rule: regex_replace_from.induct)
  case (1 r fmt p s)
  note i = regex_replace_from.simps[of r fmt p s]
  from rx_search_within_enough obtain d1
    where d1: "rx_search_within d1 r [] p s = Some (rx_search r [] p s)" by blast
  show ?case
  proof (cases "rx_search r [] p s")
    case None
    with d1 have "regex_replace_from_within d1 r fmt p s = Some (regex_replace_from r fmt p s)"
      unfolding regex_replace_from_within.simps[of d1 r fmt p s] i by simp
    then show ?thesis by (rule exI)
  next
    case (Some t)
    obtain pre st m where t: "t = (pre, st, m)" by (cases t)
    from Some t have g: "rx_search r [] p s = Some (pre, st, m)" by simp
    show ?thesis
    proof (cases "m = []")
      case True
      show ?thesis
      proof (cases "remaining st")
        case Nil
        with d1 True
        have "regex_replace_from_within d1 r fmt p s = Some (regex_replace_from r fmt p s)"
          unfolding regex_replace_from_within.simps[of d1 r fmt p s] i g by simp
        then show ?thesis by (rule exI)
      next
        case (Cons c cs)
        from "1.IH"(1)[OF g refl refl True Cons] obtain d2
          where d2: "regex_replace_from_within d2 r fmt (Some c) cs
              = Some (regex_replace_from r fmt (Some c) cs)" by blast
        define D where "D = max d1 d2"
        have a: "rx_search_within D r [] p s = Some (Some (pre, st, m))"
          using rx_search_within_mono[OF _ d1, of D] g by (simp add: D_def)
        have b: "regex_replace_from_within D r fmt (Some c) cs
              = Some (regex_replace_from r fmt (Some c) cs)"
          using regex_replace_from_within_mono[OF _ d2, of D] by (simp add: D_def)
        from True Cons
        have "regex_replace_from_within D r fmt p s = Some (regex_replace_from r fmt p s)"
          unfolding regex_replace_from_within.simps[of D r fmt p s] i g a by (simp add: b)
        then show ?thesis by (rule exI)
      qed
    next
      case False
      from "1.IH"(2)[OF g refl refl False] obtain d2
        where d2: "regex_replace_from_within d2 r fmt (Some (last m)) (remaining st)
            = Some (regex_replace_from r fmt (Some (last m)) (remaining st))" by blast
      define D where "D = max d1 d2"
      have a: "rx_search_within D r [] p s = Some (Some (pre, st, m))"
        using rx_search_within_mono[OF _ d1, of D] g by (simp add: D_def)
      have b: "regex_replace_from_within D r fmt (Some (last m)) (remaining st)
            = Some (regex_replace_from r fmt (Some (last m)) (remaining st))"
        using regex_replace_from_within_mono[OF _ d2, of D] by (simp add: D_def)
      from False
      have "regex_replace_from_within D r fmt p s = Some (regex_replace_from r fmt p s)"
        unfolding regex_replace_from_within.simps[of D r fmt p s] i g a by (simp add: b)
      then show ?thesis by (rule exI)
    qed
  qed
qed

lemma regex_replace_within_sound:
  "regex_replace_within d s r fmt = Some out \<Longrightarrow> regex_replace s r fmt = out"
  unfolding regex_replace_within_def regex_replace_def
  by (rule regex_replace_from_within_sound[symmetric])

lemma regex_replace_within_enough:
  "\<exists>d. \<forall>d'. d \<le> d' \<longrightarrow> regex_replace_within d' s r fmt = Some (regex_replace s r fmt)"
proof -
  from regex_replace_from_within_enough obtain d
    where d: "regex_replace_from_within d r fmt None s = Some (regex_replace_from r fmt None s)"
    by blast
  have "\<forall>d'. d \<le> d' \<longrightarrow> regex_replace_within d' s r fmt = Some (regex_replace s r fmt)"
    unfolding regex_replace_within_def regex_replace_def
    using regex_replace_from_within_mono[OF _ d] by blast
  then show ?thesis by (rule exI)
qed

text \<open>The passes and the pipeline: sound, and with a depth that is enough.\<close>

lemma processHeaders_within_sound:
  "processHeaders_within d markdown = Some out \<Longrightarrow> processHeaders markdown = out"
  by (auto simp: processHeaders_within_def processHeaders_def Let_def
      split: bind_splits dest!: regex_replace_within_sound)

lemma processLists_within_sound:
  "processLists_within d markdown = Some out \<Longrightarrow> processLists markdown = out"
  by (auto simp: processLists_within_def processLists_def Let_def
      split: bind_splits dest!: regex_replace_within_sound)

lemma processLinks_within_sound:
  "processLinks_within d markdown = Some out \<Longrightarrow> processLinks markdown = out"
  by (auto simp: processLinks_within_def processLinks_def dest!: regex_replace_within_sound)

lemma markdownToHtml_within_sound:
  "markdownToHtml_within d markdown = Some out \<Longrightarrow> markdownToHtml markdown = Some out"
  by (auto simp: markdownToHtml_within_def markdownToHtml_def Let_def
      split: bind_splits
      dest!: processHeaders_within_sound processLists_within_sound processLinks_within_sound)

lemma processHeaders_within_enough:
  "\<exists>d. \<forall>d'. d \<le> d' \<longrightarrow> processHeaders_within d' markdown = Some (processHeaders markdown)"
proof -
  define h1 where "h1 = regex_replace markdown (headerRegex ''#'') [Txt ''<h1>'', Cap 1, Txt ''</h1>'']"
  define h2 where "h2 = regex_replace h1 (headerRegex ''##'') [Txt ''<h2>'', Cap 1, Txt ''</h2>'']"
  define h3 where "h3 = regex_replace h2 (headerRegex ''###'') [Txt ''<h3>'', Cap 1, Txt ''</h3>'']"
  define h4 where "h4 = regex_replace h3 (headerRegex ''####'') [Txt ''<h4>'', Cap 1, Txt ''</h4>'']"
  from regex_replace_within_enough obtain d1 where d1: "\<forall>d'. d1 \<le> d' \<longrightarrow>
      regex_replace_within d' markdown (headerRegex ''#'') [Txt ''<h1>'', Cap 1, Txt ''</h1>'']
        = Some h1"
    unfolding h1_def by blast
  from regex_replace_within_enough obtain d2 where d2: "\<forall>d'. d2 \<le> d' \<longrightarrow>
      regex_replace_within d' h1 (headerRegex ''##'') [Txt ''<h2>'', Cap 1, Txt ''</h2>'']
        = Some h2"
    unfolding h2_def by blast
  from regex_replace_within_enough obtain d3 where d3: "\<forall>d'. d3 \<le> d' \<longrightarrow>
      regex_replace_within d' h2 (headerRegex ''###'') [Txt ''<h3>'', Cap 1, Txt ''</h3>'']
        = Some h3"
    unfolding h3_def by blast
  from regex_replace_within_enough obtain d4 where d4: "\<forall>d'. d4 \<le> d' \<longrightarrow>
      regex_replace_within d' h3 (headerRegex ''####'') [Txt ''<h4>'', Cap 1, Txt ''</h4>'']
        = Some h4"
    unfolding h4_def by blast
  have e: "processHeaders markdown = h4"
    by (simp add: processHeaders_def Let_def h1_def h2_def h3_def h4_def)
  have "\<forall>d'. max (max d1 d2) (max d3 d4) \<le> d' \<longrightarrow>
      processHeaders_within d' markdown = Some (processHeaders markdown)"
    unfolding e using d1 d2 d3 d4 by (simp add: processHeaders_within_def)
  then show ?thesis by (rule exI)
qed

lemma processLists_within_enough:
  "\<exists>d. \<forall>d'. d \<le> d' \<longrightarrow> processLists_within d' markdown = Some (processLists markdown)"
proof -
  define h1 where "h1 = regex_replace markdown ulRegex [Txt ''<li>'', Cap 1, Txt ''</li>'']"
  define h2 where "h2 = regex_replace h1 ulWrapRegex [Txt ''<ul>'', Whole, Txt ''</ul>'']"
  define h3 where "h3 = regex_replace h2 olRegex [Txt ''<li>'', Cap 1, Txt ''</li>'']"
  from regex_replace_within_enough obtain d1 where d1: "\<forall>d'. d1 \<le> d' \<longrightarrow>
      regex_replace_within d' markdown ulRegex [Txt ''<li>'', Cap 1, Txt ''</li>''] = Some h1"
    unfolding h1_def by blast
  from regex_replace_within_enough obtain d2 where d2: "\<forall>d'. d2 \<le> d' \<longrightarrow>
      regex_replace_within d' h1 ulWrapRegex [Txt ''<ul>'', Whole, Txt ''</ul>''] = Some h2"
    unfolding h2_def by blast
  from regex_replace_within_enough obtain d3 where d3: "\<forall>d'. d3 \<le> d' \<longrightarrow>
      regex_replace_within d' h2 olRegex [Txt ''<li>'', Cap 1, Txt ''</li>''] = Some h3"
    unfolding h3_def by blast
  have e: "processLists markdown = h3"
    by (simp add: processLists_def Let_def h1_def h2_def h3_def)
  have "\<forall>d'. max (max d1 d2) d3 \<le> d' \<longrightarrow>
      processLists_within d' markdown = Some (processLists markdown)"
    unfolding e using d1 d2 d3 by (simp add: processLists_within_def)
  then show ?thesis by (rule exI)
qed

lemma processLinks_within_enough:
  "\<exists>d. \<forall>d'. d \<le> d' \<longrightarrow> processLinks_within d' markdown = Some (processLinks markdown)"
  unfolding processLinks_within_def processLinks_def by (rule regex_replace_within_enough)

lemma markdownToHtml_within_enough:
  "\<exists>d. \<forall>d'. d \<le> d' \<longrightarrow> markdownToHtml_within d' markdown = markdownToHtml markdown"
proof -
  define h1 where "h1 = processHeaders markdown"
  from processCodeBlocks_total obtain h2 where h2: "processCodeBlocks h1 = Some h2" by blast
  from processBoldText_total obtain h3 where h3: "processBoldText h2 = Some h3" by blast
  define h4 where "h4 = processLists h3"
  define h5 where "h5 = processLinks h4"
  from processHeaders_within_enough obtain d1 where d1: "\<forall>d'. d1 \<le> d' \<longrightarrow>
      processHeaders_within d' markdown = Some h1"
    unfolding h1_def by blast
  from processLists_within_enough obtain d2 where d2: "\<forall>d'. d2 \<le> d' \<longrightarrow>
      processLists_within d' h3 = Some h4"
    unfolding h4_def by blast
  from processLinks_within_enough obtain d3 where d3: "\<forall>d'. d3 \<le> d' \<longrightarrow>
      processLinks_within d' h4 = Some h5"
    unfolding h5_def by blast
  have e: "markdownToHtml markdown = processTables h5"
    using h2 h3 by (simp add: markdownToHtml_def Let_def h1_def[symmetric] h4_def h5_def)
  have "\<forall>d'. max (max d1 d2) d3 \<le> d' \<longrightarrow>
      markdownToHtml_within d' markdown = markdownToHtml markdown"
    unfolding e using d1 d2 d3 h2 h3 by (simp add: markdownToHtml_within_def)
  then show ?thesis by (rule exI)
qed

text \<open>
  A heading line with more characters than the stack is deep: the greedy \<open>.+\<close> of the
  first pattern runs to the end of the line, one level for each character.
\<close>

lemma star_any_within_None:
  assumes "d \<le> length s" and "\<forall>c \<in> set s. \<not> is_line_terminator c"
  shows "rx_match_within d (Star (Atom AnyChar))
           \<lparr>prevChar = p, remaining = s, captures = cp\<rparr> = None"
  using assms
proof (induction d arbitrary: s p)
  case 0
  show ?case by simp
next
  case (Suc d)
  from Suc.prems(1) obtain a s' where s: "s = a # s'" by (cases s) auto
  show ?case
  proof (cases d)
    case 0
    then show ?thesis by simp
  next
    case (Suc k)
    from Suc.prems s have l: "d \<le> length s'" and t: "\<forall>c \<in> set s'. \<not> is_line_terminator c"
      and a: "\<not> is_line_terminator a" by simp_all
    from Suc.IH[OF l t]
    have n: "rx_match_within d (Star (Atom AnyChar))
        \<lparr>prevChar = Some a, remaining = s', captures = cp\<rparr> = None" .
    have m: "rx_match_within d (Atom AnyChar) \<lparr>prevChar = p, remaining = a # s', captures = cp\<rparr>
        = Some [\<lparr>prevChar = Some a, remaining = s', captures = cp\<rparr>]"
      unfolding Suc using a by (simp add: rx_match.simps(1))
    show ?thesis unfolding s rx_match_within.simps(6) m by (simp add: n)
  qed
qed

lemma headerRegex_within_None_long:
  "rx_match_within (Suc (Suc (Suc (Suc (Suc (Suc (Suc k))))))) (headerRegex ''#'')
     \<lparr>prevChar = None, remaining = ''# '' @ replicate (Suc (Suc k)) CHR ''a'',
      captures = Map.empty\<rparr> = None"
proof -
  let ?st1 = "\<lparr>prevChar = Some CHR ''#'',
      remaining = CHR '' '' # CHR ''a'' # CHR ''a'' # replicate k CHR ''a'',
      captures = Map.empty\<rparr>"
  let ?st2 = "\<lparr>prevChar = Some CHR '' '', remaining = CHR ''a'' # CHR ''a'' # replicate k CHR ''a'',
      captures = Map.empty\<rparr>"
  let ?st3 = "\<lparr>prevChar = Some CHR ''a'', remaining = CHR ''a'' # replicate k CHR ''a'',
      captures = Map.empty\<rparr>"
  have s: "rx_match_within (Suc k) (Star (Atom AnyChar)) ?st3 = None"
    by (rule star_any_within_None) (simp_all add: is_line_terminator_def)
  have p: "rx_match_within (Suc (Suc k)) (Plus (Atom AnyChar)) ?st2 = None"
    unfolding Plus_def
    by (simp add: rx_match.simps(1) is_line_terminator_def s del: rx_match_within.simps(6))
  have sp: "rx_match_within (Suc (Suc (Suc (Suc k)))) (Plus (Atom Space)) ?st1 = Some [?st2]"
    unfolding Plus_def by (simp add: rx_match.simps(1) isspace_def)
  show ?thesis
    by (simp add: headerRegex_def rx_match.simps(1,2) sp p)
qed

lemma headerRegex_within_None:
  "rx_match_within d (headerRegex ''#'')
     \<lparr>prevChar = None, remaining = ''# '' @ replicate d CHR ''a'', captures = Map.empty\<rparr> = None"
proof (cases "d < 2")
  case True
  then consider "d = 0" | "d = Suc 0" by linarith
  then show ?thesis
  proof cases
    case 1
    then show ?thesis by simp
  next
    case 2
    then show ?thesis by (simp add: headerRegex_def)
  qed
next
  case False
  define k where "k = d - 2"
  from False have k: "d = Suc (Suc k)" by (simp add: k_def)
  let ?st = "\<lparr>prevChar = None, remaining = ''# '' @ replicate d CHR ''a'', captures = Map.empty\<rparr>"
  have n: "rx_match_within (Suc (Suc (Suc (Suc (Suc (Suc (Suc k))))))) (headerRegex ''#'') ?st = None"
    unfolding k by (rule headerRegex_within_None_long)
  show ?thesis
  proof (cases "rx_match_within d (headerRegex ''#'') ?st")
    case None
    then show ?thesis .
  next
    case (Some sts)
    have "d \<le> Suc (Suc (Suc (Suc (Suc (Suc (Suc k))))))" by (simp add: k)
    from rx_match_within_mono[OF this Some] n show ?thesis by simp
  qed
qed

lemma markdownToHtml_within_long_heading:
  "markdownToHtml_within d (''# '' @ replicate d CHR ''a'') = None"
proof -
  have "rx_search_within d (headerRegex ''#'') [] None (CHR ''#'' # CHR '' '' # replicate d CHR ''a'')
      = None"
    using headerRegex_within_None[of d] by simp
  then have "regex_replace_within d (''# '' @ replicate d CHR ''a'') (headerRegex ''#'')
      [Txt ''<h1>'', Cap 1, Txt ''</h1>''] = None"
    by (simp add: regex_replace_within_def regex_replace_from_within.simps)
  then have "processHeaders_within d (''# '' @ replicate d CHR ''a'') = None"
    by (simp add: processHeaders_within_def)
  then show ?thesis by (simp add: markdownToHtml_within_def)
qed

text \<open>A deeper stack changes no output of the renderer.\<close>

lemma regex_replace_within_mono:
  assumes "d \<le> d'" and "regex_replace_within d s r fmt = Some out"
  shows "regex_replace_within d' s r fmt = Some out"
  using assms unfolding regex_replace_within_def by (rule regex_replace_from_within_mono)

lemma processHeaders_within_mono:
  assumes "d \<le> d'" and "processHeaders_within d markdown = Some out"
  shows "processHeaders_within d' markdown = Some out"
  using assms(2) regex_replace_within_mono[OF assms(1)]
  by (auto simp: processHeaders_within_def split: bind_splits)

lemma processLists_within_mono:
  assumes "d \<le> d'" and "processLists_within d markdown = Some out"
  shows "processLists_within d' markdown = Some out"
  using assms(2) regex_replace_within_mono[OF assms(1)]
  by (auto simp: processLists_within_def split: bind_splits)

lemma processLinks_within_mono:
  assumes "d \<le> d'" and "processLinks_within d markdown = Some out"
  shows "processLinks_within d' markdown = Some out"
  using assms unfolding processLinks_within_def by (rule regex_replace_within_mono)

lemma markdownToHtml_within_mono:
  assumes "d \<le> d'" and "markdownToHtml_within d markdown = Some out"
  shows "markdownToHtml_within d' markdown = Some out"
  using assms(2) processHeaders_within_mono[OF assms(1)] processLists_within_mono[OF assms(1)]
    processLinks_within_mono[OF assms(1)]
  by (auto simp: markdownToHtml_within_def split: bind_splits)

section \<open>The claims\<close>

subsection \<open>Route dispatch\<close>

text \<open>
  Claim C1, as the code has it: for a request whose path begins with none of \<open>/course/\<close>,
  \<open>/css/\<close> and \<open>/js/\<close>, the status is decided by the method first and the path second.
  It is 405 exactly when the route table has no entry at all for the request's method,
  whatever the path; it is 404 when the table has entries for the method but none of them
  for the path; and it is 200 when the method's table holds the path.
\<close>

theorem dispatch_status_by_method_then_path:
  assumes "table_prefix_free (req_path req)"
  shows "statusCode (dispatch srv req) =
     (case routes srv (req_method req) of
        None \<Rightarrow> 405
      | Some table \<Rightarrow> (case table (req_path req) of None \<Rightarrow> 404 | Some handler \<Rightarrow> 200))"
proof -
  have l: "length ''/course/'' = 8" "length ''/css/'' = 5" "length ''/js/'' = 4" by simp_all
  from assms have "str_find (req_path req) ''/course/'' 0 \<noteq> Some 0"
    and "str_find (req_path req) ''/css/'' 0 \<noteq> Some 0"
    and "str_find (req_path req) ''/js/'' 0 \<noteq> Some 0"
    unfolding str_find_0 l table_prefix_free_def by simp_all
  then show ?thesis
    by (simp add: dispatch_def Let_def split: option.splits)
qed

theorem dispatch_status_by_method_then_path_witness:
  "table_prefix_free ''/health''
   \<and> statusCode (dispatch example_server
        \<lparr>req_method = ''GET'', req_path = ''/health'', req_headers = Map.empty, req_body = []\<rparr>) = 200
   \<and> statusCode (dispatch example_server
        \<lparr>req_method = ''GET'', req_path = ''/submit'', req_headers = Map.empty, req_body = []\<rparr>) = 404
   \<and> statusCode (dispatch example_server
        \<lparr>req_method = ''PUT'', req_path = ''/submit'', req_headers = Map.empty, req_body = []\<rparr>) = 405"
proof -
  have a: "table_prefix_free ''/health''" and b: "table_prefix_free ''/submit''"
    by (simp_all add: table_prefix_free_def)
  have r: "routes example_server =
      [''GET'' \<mapsto> [''/health'' \<mapsto> example_handler],
       ''POST'' \<mapsto> [''/submit'' \<mapsto> example_handler]]"
    by (simp add: example_server_def addRoute_def)
  show ?thesis
    using a
      dispatch_status_by_method_then_path[of
        "\<lparr>req_method = ''GET'', req_path = ''/health'', req_headers = Map.empty, req_body = []\<rparr>"
        example_server]
      dispatch_status_by_method_then_path[of
        "\<lparr>req_method = ''GET'', req_path = ''/submit'', req_headers = Map.empty, req_body = []\<rparr>"
        example_server]
      dispatch_status_by_method_then_path[of
        "\<lparr>req_method = ''PUT'', req_path = ''/submit'', req_headers = Map.empty, req_body = []\<rparr>"
        example_server]
    by (simp add: r b)
qed

text \<open>
  Claim C1 as stated fails in both halves.  On a server with the routes \<open>GET /health\<close> and
  \<open>POST /submit\<close>, the request \<open>DELETE /nothing\<close> gets 405 although no method has an entry
  for \<open>/nothing\<close> (the claim says 404), and \<open>POST /health\<close> gets 404 although \<open>/health\<close> is
  registered under another method (the claim says 405).
\<close>

theorem dispatch_claimed_status_counterexample:
  "table_prefix_free ''/nothing''
   \<and> \<not> path_registered example_server ''/nothing''
   \<and> statusCode (dispatch example_server
        \<lparr>req_method = ''DELETE'', req_path = ''/nothing'', req_headers = Map.empty, req_body = []\<rparr>) = 405
   \<and> table_prefix_free ''/health''
   \<and> path_registered example_server ''/health''
   \<and> statusCode (dispatch example_server
        \<lparr>req_method = ''POST'', req_path = ''/health'', req_headers = Map.empty, req_body = []\<rparr>) = 404
   \<and> handleClient example_server (''DELETE /nothing HTTP/1.1'' @ CRLF @ CRLF)
       = Some (createHttpResponse 405 ''text/plain'' ''Method Not Allowed'')
   \<and> handleClient example_server (''POST /health HTTP/1.1'' @ CRLF @ CRLF)
       = Some (createHttpResponse 404 ''text/plain'' ''Not Found'')"
proof (intro conjI)
  show "handleClient example_server (''DELETE /nothing HTTP/1.1'' @ CRLF @ CRLF)
       = Some (createHttpResponse 405 ''text/plain'' ''Method Not Allowed'')"
    by code_simp
  show "handleClient example_server (''POST /health HTTP/1.1'' @ CRLF @ CRLF)
       = Some (createHttpResponse 404 ''text/plain'' ''Not Found'')"
    by code_simp
  show "table_prefix_free ''/nothing''" "table_prefix_free ''/health''"
    by (simp_all add: table_prefix_free_def)
  show "\<not> path_registered example_server ''/nothing''"
    by (auto simp: path_registered_def example_server_def addRoute_def split: if_splits)
  show "path_registered example_server ''/health''"
    unfolding path_registered_def
    by (rule exI[of _ "''GET''"]) (simp add: example_server_def addRoute_def)
  show "statusCode (dispatch example_server
        \<lparr>req_method = ''DELETE'', req_path = ''/nothing'', req_headers = Map.empty, req_body = []\<rparr>) = 405"
    by (simp add: dispatch_def example_server_def addRoute_def str_find_def)
  show "statusCode (dispatch example_server
        \<lparr>req_method = ''POST'', req_path = ''/health'', req_headers = Map.empty, req_body = []\<rparr>) = 404"
    by (simp add: dispatch_def example_server_def addRoute_def str_find_def)
qed

text \<open>
  Claim C10, as the code has it: for a request whose path begins with \<open>/course/\<close>, \<open>/css/\<close>
  or \<open>/js/\<close> the method is ignored: the response is decided by the path alone, is the same
  under every method, and its status is never 405.  A \<open>/course/\<close> path with a further slash
  gets the page of the content renderer for the module before that slash and the lesson
  after it; a \<open>/course/\<close> path with no further slash gets the 400 answer
  \<open>Invalid course path\<close>, with no call of the renderer; every other path gets the answer of
  the static-file server, with 404 when that is \<open>File not found\<close>.
\<close>

theorem dispatch_prefix_ignores_method:
  assumes "take 8 (req_path req) = ''/course/'' \<or> take 5 (req_path req) = ''/css/''
           \<or> take 4 (req_path req) = ''/js/''"
  shows "dispatch srv req =
       (if take 8 (req_path req) = ''/course/''
        then (if CHR ''/'' \<in> set (drop 8 (req_path req))
              then \<lparr>statusCode = 200, contentType = ''text/html'',
                    responseBody = generateCoursePage srv
                      (takeWhile (\<lambda>c. c \<noteq> CHR ''/'') (drop 8 (req_path req)))
                      (drop 1 (dropWhile (\<lambda>c. c \<noteq> CHR ''/'') (drop 8 (req_path req))))\<rparr>
              else \<lparr>statusCode = 400, contentType = ''text/plain'',
                    responseBody = ''Invalid course path''\<rparr>)
        else \<lparr>statusCode = (if serveStaticFile srv (req_path req) = ''File not found''
                            then 404 else 200),
              contentType = getMimeType (req_path req),
              responseBody = serveStaticFile srv (req_path req)\<rparr>)
     \<and> dispatch srv (req\<lparr>req_method := method\<rparr>) = dispatch srv req
     \<and> statusCode (dispatch srv req) \<noteq> 405"
proof -
  have a: "dispatch srv req = prefix_response srv (req_path req)"
    by (rule dispatch_on_prefix[OF assms])
  from assms have "take 8 (req_path (req\<lparr>req_method := method\<rparr>)) = ''/course/''
      \<or> take 5 (req_path (req\<lparr>req_method := method\<rparr>)) = ''/css/''
      \<or> take 4 (req_path (req\<lparr>req_method := method\<rparr>)) = ''/js/''" by simp
  from dispatch_on_prefix[OF this]
  have b: "dispatch srv (req\<lparr>req_method := method\<rparr>) = prefix_response srv (req_path req)"
    by simp
  have c: "statusCode (prefix_response srv (req_path req)) \<noteq> 405"
    by (simp add: prefix_response_def)
  from a b c show ?thesis unfolding prefix_response_def by simp
qed

theorem dispatch_prefix_ignores_method_witness:
  "dispatch example_server
     \<lparr>req_method = ''POST'', req_path = ''/course/fundamentals/introduction'',
      req_headers = Map.empty, req_body = []\<rparr>
   = \<lparr>statusCode = 200, contentType = ''text/html'',
      responseBody = generateCoursePage example_server ''fundamentals'' ''introduction''\<rparr>
   \<and> dispatch example_server
     \<lparr>req_method = ''GET'', req_path = ''/course/fundamentals'', req_headers = Map.empty, req_body = []\<rparr>
   = \<lparr>statusCode = 400, contentType = ''text/plain'', responseBody = ''Invalid course path''\<rparr>
   \<and> dispatch example_server
     \<lparr>req_method = ''DELETE'', req_path = ''/css/style.css'', req_headers = Map.empty, req_body = []\<rparr>
   = \<lparr>statusCode = 404, contentType = ''text/css'', responseBody = ''File not found''\<rparr>
   \<and> dispatch example_server
     \<lparr>req_method = ''DELETE'', req_path = ''/css/style.css'', req_headers = Map.empty, req_body = []\<rparr>
   = dispatch example_server
     \<lparr>req_method = ''GET'', req_path = ''/css/style.css'', req_headers = Map.empty, req_body = []\<rparr>"
proof -
  let ?a = "\<lparr>req_method = ''POST'', req_path = ''/course/fundamentals/introduction'',
      req_headers = Map.empty, req_body = []\<rparr>"
  let ?b = "\<lparr>req_method = ''GET'', req_path = ''/course/fundamentals'',
      req_headers = Map.empty, req_body = []\<rparr>"
  let ?c = "\<lparr>req_method = ''GET'', req_path = ''/css/style.css'',
      req_headers = Map.empty, req_body = []\<rparr>"
  have ha: "take 8 (req_path ?a) = ''/course/'' \<or> take 5 (req_path ?a) = ''/css/''
           \<or> take 4 (req_path ?a) = ''/js/''" by simp
  have hb: "take 8 (req_path ?b) = ''/course/'' \<or> take 5 (req_path ?b) = ''/css/''
           \<or> take 4 (req_path ?b) = ''/js/''" by simp
  have hc: "take 8 (req_path ?c) = ''/course/'' \<or> take 5 (req_path ?c) = ''/css/''
           \<or> take 4 (req_path ?c) = ''/js/''" by simp
  have s: "serveStaticFile example_server ''/css/style.css'' = ''File not found''"
    by (simp add: serveStaticFile_def fileExists_def example_server_def addRoute_def)
  have m: "getMimeType ''/css/style.css'' = ''text/css''" by code_simp
  from dispatch_prefix_ignores_method[OF ha, of example_server]
    dispatch_prefix_ignores_method[OF hb, of example_server]
    dispatch_prefix_ignores_method[OF hc, of example_server "''DELETE''"]
  show ?thesis by (simp add: s m)
qed

text \<open>
  Claim C10 as stated fails: \<open>DELETE /course/fundamentals\<close> begins with the content prefix
  and is answered with 400 and the text \<open>Invalid course path\<close>; the answer comes from
  neither the content renderer nor the static-file server.
\<close>

theorem dispatch_course_path_without_lesson_counterexample:
  "take 8 ''/course/fundamentals'' = ''/course/''
   \<and> dispatch example_server
        \<lparr>req_method = ''DELETE'', req_path = ''/course/fundamentals'',
         req_headers = Map.empty, req_body = []\<rparr>
      = \<lparr>statusCode = 400, contentType = ''text/plain'', responseBody = ''Invalid course path''\<rparr>
   \<and> handleClient example_server (''DELETE /course/fundamentals HTTP/1.1'' @ CRLF @ CRLF)
       = Some (createHttpResponse 400 ''text/plain'' ''Invalid course path'')"
proof (intro conjI)
  show "take 8 ''/course/fundamentals'' = ''/course/''" by simp
  show "dispatch example_server
        \<lparr>req_method = ''DELETE'', req_path = ''/course/fundamentals'',
         req_headers = Map.empty, req_body = []\<rparr>
      = \<lparr>statusCode = 400, contentType = ''text/plain'', responseBody = ''Invalid course path''\<rparr>"
    by (simp add: dispatch_def str_find_def)
  show "handleClient example_server (''DELETE /course/fundamentals HTTP/1.1'' @ CRLF @ CRLF)
       = Some (createHttpResponse 400 ''text/plain'' ''Invalid course path'')"
    by code_simp
qed

subsection \<open>Response framing and content types\<close>

text \<open>
  Claim C2: for every status code, content type and body, the response of
  \<open>createHttpResponse\<close> ends with the header section's last three header lines, the blank
  line and the body, and the \<open>Content-Length\<close> line among them holds the decimal numeral of
  the body's length in bytes, which reads back as that length.
\<close>

theorem createHttpResponse_content_length:
  "(\<exists>statusLine. createHttpResponse code ctype body =
      statusLine @ CRLF @ ''Content-Type: '' @ ctype @ CRLF
      @ ''Content-Length: '' @ show_nat (length body) @ CRLF
      @ ''Access-Control-Allow-Origin: *'' @ CRLF @ ''Connection: close'' @ CRLF
      @ CRLF @ body)
   \<and> decimal_value (show_nat (length body)) = length body"
  by (simp add: createHttpResponse_def decimal_value_show_nat)

text \<open>
  Claim C6 (the content type of a \<open>.json\<close> path): \<open>getMimeType\<close> tests for \<open>.js\<close> before
  \<open>.json\<close>, and every path that contains \<open>.json\<close> contains \<open>.js\<close>; so a \<open>.json\<close> path is
  served as \<open>application/javascript\<close>, and \<open>application/json\<close> is returned for no path.
\<close>

theorem getMimeType_json_unreachable:
  "getMimeType ''/js/data.json'' = ''application/javascript''
   \<and> (\<forall>path. getMimeType path \<noteq> ''application/json'')"
proof
  show "getMimeType ''/js/data.json'' = ''application/javascript''" by code_simp
  show "\<forall>path. getMimeType path \<noteq> ''application/json''"
  proof
    fix path
    show "getMimeType path \<noteq> ''application/json''"
    proof (cases "str_find path ''.js'' 0 = None")
      case True
      with json_implies_js[of path] have "str_find path ''.json'' 0 = None" by blast
      with True show ?thesis by (simp add: getMimeType_def)
    next
      case False
      then show ?thesis by (simp add: getMimeType_def)
    qed
  qed
qed

subsection \<open>Lesson order and navigation\<close>

text \<open>
  Claim C7: loading a lessons directory whose module directories, and the files of each,
  have distinct names succeeds, and every module directory has its module in the catalog
  afterwards.  Where the module has a catalog entry, its lesson list holds the discovered
  lessons that the catalog names first, in catalog order, followed by the other discovered
  lessons in their discovery order; a module with no catalog entry keeps its lessons in
  discovery order.
\<close>

theorem loadAllLessons_lesson_order:
  assumes "distinct (map fst moduleDirs)"
    and "(moduleName, Directory lessonEntries) \<in> set moduleDirs"
    and "distinct (map fst lessonEntries)"
  shows "\<exists>ll m. loadAllLessons (Some (Directory moduleDirs)) ll0 = (True, ll)
      \<and> map_of (modules ll) moduleName = Some m
      \<and> lessons m =
          (case lessonOrder moduleName of
             None \<Rightarrow> discovered_lessons lessonEntries
           | Some desiredOrder \<Rightarrow>
               filter (\<lambda>l. l \<in> set (discovered_lessons lessonEntries)) desiredOrder
               @ filter (\<lambda>l. l \<notin> set desiredOrder) (discovered_lessons lessonEntries))"
proof -
  let ?m0 = "\<lparr>name = moduleName, lessons = [], lessonData = Map.empty\<rparr>"
  from loadLessons_Some[of lessonEntries ?m0] obtain m
    where m: "loadLessons lessonEntries ?m0 = Some m"
      and l: "lessons m = discovered_lessons lessonEntries" and n: "name m = moduleName"
    by auto
  from loadModules_completes[of moduleDirs "modules ll0"] obtain ms
    where c: "loadModules moduleDirs (modules ll0) = (ms, True)" by blast
  define ll where "ll = sortModulesInOrder (ll0\<lparr>modules := ms\<rparr>)"
  have a: "loadAllLessons (Some (Directory moduleDirs)) ll0 = (True, ll)"
    by (simp add: loadAllLessons_def c ll_def)
  have "map_of (fst (loadModules moduleDirs (modules ll0))) moduleName = Some (sortLessonsInModule m)"
    by (rule loadModules_module[OF assms(1,2) m])
  then have b: "map_of (modules ll) moduleName = Some (sortLessonsInModule m)"
    by (simp add: c ll_def sortModulesInOrder_def)
  from assms(3) have d: "distinct (lessons m)"
    unfolding l discovered_lessons_def by (rule distinct_stems)
  have o: "lessons (sortLessonsInModule m) =
          (case lessonOrder moduleName of
             None \<Rightarrow> discovered_lessons lessonEntries
           | Some desiredOrder \<Rightarrow>
               filter (\<lambda>l. l \<in> set (discovered_lessons lessonEntries)) desiredOrder
               @ filter (\<lambda>l. l \<notin> set desiredOrder) (discovered_lessons lessonEntries))"
  proof (cases "lessonOrder moduleName")
    case None
    with sortLessonsInModule_lessons[of m] n l show ?thesis by simp
  next
    case (Some desiredOrder)
    with sortLessonsInModule_lessons[of m] n d have "lessons (sortLessonsInModule m) =
        filter (\<lambda>l. l \<in> set (lessons m)) desiredOrder
        @ filter (\<lambda>l. l \<notin> set desiredOrder) (lessons m)" by simp
    with Some l show ?thesis by simp
  qed
  from a b o show ?thesis
    by - (rule exI[where x = ll], rule exI[where x = "sortLessonsInModule m"], simp)
qed

theorem loadAllLessons_lesson_order_witness:
  "(\<exists>ll m. loadAllLessons (Some (Directory example_lessons_dir)) \<lparr>modules = [], moduleOrder = []\<rparr>
        = (True, ll)
      \<and> map_of (modules ll) ''fundamentals'' = Some m
      \<and> lessons m = [''introduction'', ''threading'', ''extra''])
   \<and> (\<exists>ll m. loadAllLessons (Some (Directory example_lessons_dir)) \<lparr>modules = [], moduleOrder = []\<rparr>
        = (True, ll)
      \<and> map_of (modules ll) ''appendix'' = Some m
      \<and> lessons m = [''zeta'', ''alpha''])"
proof -
  have d: "distinct (map fst example_lessons_dir)"
    and f: "(''fundamentals'', Directory example_fundamentals_dir) \<in> set example_lessons_dir"
    and a: "(''appendix'', Directory example_appendix_dir) \<in> set example_lessons_dir"
    by (simp_all add: example_lessons_dir_def)
  have df: "distinct (map fst example_fundamentals_dir)"
    by (simp add: example_fundamentals_dir_def)
  have da: "distinct (map fst example_appendix_dir)"
    by (simp add: example_appendix_dir_def)
  have ef: "(case lessonOrder ''fundamentals'' of
             None \<Rightarrow> discovered_lessons example_fundamentals_dir
           | Some desiredOrder \<Rightarrow>
               filter (\<lambda>l. l \<in> set (discovered_lessons example_fundamentals_dir)) desiredOrder
               @ filter (\<lambda>l. l \<notin> set desiredOrder) (discovered_lessons example_fundamentals_dir))
      = [''introduction'', ''threading'', ''extra'']"
    by code_simp
  have ea: "(case lessonOrder ''appendix'' of
             None \<Rightarrow> discovered_lessons example_appendix_dir
           | Some desiredOrder \<Rightarrow>
               filter (\<lambda>l. l \<in> set (discovered_lessons example_appendix_dir)) desiredOrder
               @ filter (\<lambda>l. l \<notin> set desiredOrder) (discovered_lessons example_appendix_dir))
      = [''zeta'', ''alpha'']"
    by code_simp
  from loadAllLessons_lesson_order[OF d f df, of "\<lparr>modules = [], moduleOrder = []\<rparr>"]
    loadAllLessons_lesson_order[OF d a da, of "\<lparr>modules = [], moduleOrder = []\<rparr>"]
  show ?thesis unfolding ef ea by (rule conjI)
qed

text \<open>The reordering on its own, on a module with a catalog entry and on one without.\<close>

lemma sortLessonsInModule_example:
  "lessons (sortLessonsInModule example_module)
     = [''introduction'', ''http-basics'', ''threading'', ''extra'']
   \<and> sortLessonsInModule example_unlisted_module = example_unlisted_module"
proof -
  have o: "lessonOrder (name example_module)
      = Some [''introduction'', ''sockets'', ''http-basics'', ''threading'']"
    by (simp add: lessonOrder_def example_module_def)
  have d: "distinct (lessons example_module)" by (simp add: example_module_def)
  have n: "lessonOrder (name example_unlisted_module) = None"
    by (simp add: lessonOrder_def example_unlisted_module_def)
  from sortLessonsInModule_lessons[of example_module] o d
  have "lessons (sortLessonsInModule example_module) =
        filter (\<lambda>l. l \<in> set (lessons example_module))
          [''introduction'', ''sockets'', ''http-basics'', ''threading'']
        @ filter (\<lambda>l. l \<notin> set [''introduction'', ''sockets'', ''http-basics'', ''threading''])
            (lessons example_module)"
    by blast
  then have "lessons (sortLessonsInModule example_module)
     = [''introduction'', ''http-basics'', ''threading'', ''extra'']"
    by (simp add: example_module_def)
  moreover from sortLessonsInModule_lessons[of example_unlisted_module] n
  have "sortLessonsInModule example_unlisted_module = example_unlisted_module" by blast
  ultimately show ?thesis by simp
qed

text \<open>
  Claim C8: \<open>getPreviousNextLesson\<close> answers by the position of the current lesson in the
  module's lesson list: an unknown module or an unknown lesson gives two empty links; the
  lesson at position \<open>i\<close> gets the lesson before it (none at position 0) and the lesson
  after it (none at the last position); so the first lesson has an empty previous link and
  the last lesson an empty next link.
\<close>

theorem getPreviousNextLesson_position:
  "(map_of (modules ll) module = None \<longrightarrow> getPreviousNextLesson ll module l = ([], []))
   \<and> (\<forall>m. map_of (modules ll) module = Some m \<longrightarrow>
        (l \<notin> set (lessons m) \<longrightarrow> getPreviousNextLesson ll module l = ([], []))
      \<and> (\<forall>i. i < length (lessons m) \<and> distinct (lessons m) \<longrightarrow>
            getPreviousNextLesson ll module (lessons m ! i) =
              (if i = 0 then [] else lessons m ! (i - 1),
               if i + 1 = length (lessons m) then [] else lessons m ! (i + 1)))
      \<and> (lessons m \<noteq> [] \<longrightarrow> fst (getPreviousNextLesson ll module (hd (lessons m))) = [])
      \<and> (lessons m \<noteq> [] \<and> distinct (lessons m) \<longrightarrow>
            snd (getPreviousNextLesson ll module (last (lessons m))) = []))"
proof (intro conjI allI impI)
  assume "map_of (modules ll) module = None"
  then show "getPreviousNextLesson ll module l = ([], [])"
    by (simp add: getPreviousNextLesson_def)
next
  fix m assume "map_of (modules ll) module = Some m" and "l \<notin> set (lessons m)"
  then show "getPreviousNextLesson ll module l = ([], [])"
    by (simp add: getPreviousNextLesson_def Let_def std_find_end)
next
  fix m i assume m: "map_of (modules ll) module = Some m"
    and "i < length (lessons m) \<and> distinct (lessons m)"
  then have i: "i < length (lessons m)" and d: "distinct (lessons m)" by simp_all
  show "getPreviousNextLesson ll module (lessons m ! i) =
      (if i = 0 then [] else lessons m ! (i - 1),
       if i + 1 = length (lessons m) then [] else lessons m ! (i + 1))"
    by (rule gpn_at[OF m i std_find_nth[OF d i]])
next
  fix m assume m: "map_of (modules ll) module = Some m" and ne: "lessons m \<noteq> []"
  from ne have i: "0 < length (lessons m)" by simp
  from gpn_at[OF m i std_find_hd[OF ne]]
  show "fst (getPreviousNextLesson ll module (hd (lessons m))) = []" by simp
next
  fix m assume m: "map_of (modules ll) module = Some m"
    and "lessons m \<noteq> [] \<and> distinct (lessons m)"
  then have ne: "lessons m \<noteq> []" and d: "distinct (lessons m)" by simp_all
  define i where "i = length (lessons m) - 1"
  from ne have i: "i < length (lessons m)" by (simp add: i_def)
  from ne have l: "last (lessons m) = lessons m ! i" by (simp add: i_def last_conv_nth)
  from ne have e: "i + 1 = length (lessons m)" by (simp add: i_def)
  from gpn_at[OF m i std_find_nth[OF d i]] e
  show "snd (getPreviousNextLesson ll module (last (lessons m))) = []"
    unfolding l by simp
qed

theorem getPreviousNextLesson_position_witness:
  "getPreviousNextLesson example_loader ''fundamentals'' ''introduction'' = ([], ''sockets'')
   \<and> getPreviousNextLesson example_loader ''fundamentals'' ''http-basics'' = (''sockets'', [])
   \<and> getPreviousNextLesson example_loader ''fundamentals'' ''missing'' = ([], [])
   \<and> getPreviousNextLesson example_loader ''nowhere'' ''introduction'' = ([], [])"
proof -
  let ?m = "\<lparr>name = ''fundamentals'', lessons = [''introduction'', ''sockets'', ''http-basics''],
          lessonData = Map.empty\<rparr>"
  have m: "map_of (modules example_loader) ''fundamentals'' = Some ?m"
    and n: "map_of (modules example_loader) ''nowhere'' = None"
    by (simp_all add: example_loader_def)
  have d: "distinct (lessons ?m)" by simp
  note t = getPreviousNextLesson_position[of example_loader]
  from t[of "''fundamentals''"] m d
  have p: "\<And>i. i < length (lessons ?m) \<Longrightarrow>
      getPreviousNextLesson example_loader ''fundamentals'' (lessons ?m ! i) =
        (if i = 0 then [] else lessons ?m ! (i - 1),
         if i + 1 = length (lessons ?m) then [] else lessons ?m ! (i + 1))"
    by blast
  from p[of 0] have "getPreviousNextLesson example_loader ''fundamentals'' ''introduction''
      = ([], ''sockets'')" by simp
  moreover from p[of 2]
  have "getPreviousNextLesson example_loader ''fundamentals'' ''http-basics'' = (''sockets'', [])"
    by simp
  moreover from t[of "''fundamentals''" "''missing''"] m
  have "getPreviousNextLesson example_loader ''fundamentals'' ''missing'' = ([], [])"
    by simp
  moreover from t[of "''nowhere''" "''introduction''"] n
  have "getPreviousNextLesson example_loader ''nowhere'' ''introduction'' = ([], [])"
    by simp
  ultimately show ?thesis by simp
qed

subsection \<open>Request headers\<close>

text \<open>
  Claim C3, as the code has it: for every raw request, the header map that
  \<open>parseHttpRequest\<close> builds holds, for every name, the entry of the last header line with
  that name, where the header lines are the lines after the request line up to the first
  empty line, a line without a colon gives no entry, and a line with a colon gives the text
  before its first colon as the name and the text after it, less one trailing carriage
  return, as the value.  Leading spaces of the value are kept.
\<close>

theorem parseHttpRequest_headers:
  "req_headers (parseHttpRequest request) k
     = last_entry (List.map_filter header_entry (header_lines request)) k"
proof (cases "getlines request")
  case Nil
  then show ?thesis
    by (simp add: parseHttpRequest_def header_lines_def List.map_filter_simps last_entry_def)
next
  case (Cons line ls)
  obtain hs bs where p: "parse_headers ls Map.empty = (hs, bs)" by (cases "parse_headers ls Map.empty")
  from parse_headers_fst[of ls Map.empty] p
  have "hs = map_of (rev (List.map_filter header_entry (header_lines request)))"
    by (simp add: header_lines_def Cons)
  then have "hs k = last_entry (List.map_filter header_entry (header_lines request)) k"
    by (simp add: map_of_rev_last)
  moreover have "req_headers (parseHttpRequest request) = hs"
    by (simp add: parseHttpRequest_def Cons p split: prod.splits)
  ultimately show ?thesis by simp
qed

theorem parseHttpRequest_headers_witness:
  "req_headers (parseHttpRequest example_request) ''X-Tag'' = Some '' b:c''"
proof -
  have "last_entry (List.map_filter header_entry (header_lines example_request)) ''X-Tag''
      = Some '' b:c''"
    by code_simp
  with parseHttpRequest_headers[of example_request "''X-Tag''"] show ?thesis by simp
qed

text \<open>
  Claim C3 as stated fails: the value of \<open>Host: example.com\<close> is stored with its leading
  space, not stripped of it.
\<close>

theorem parseHttpRequest_leading_space_counterexample:
  "req_headers (parseHttpRequest example_request) ''Host'' = Some '' example.com''
   \<and> req_headers (parseHttpRequest example_request) ''Host'' \<noteq> Some ''example.com''"
  by code_simp

subsection \<open>The markdown renderer\<close>

text \<open>
  Claim C4 (a backtick span right behind \<open></code>\<close> is skipped): the test of the inline-code
  loop compares a substring of at most six characters with the seven characters of
  \<open></code>\<close>, so it holds for no text and no position, and no span is ever skipped: the
  second span of two adjacent spans, and a span behind a literal \<open></code>\<close>, are converted
  like any other.
\<close>

theorem inline_code_skip_never_taken:
  "processCodeBlocks ''`a``b`'' = Some ''<code>a</code><code>b</code>''
   \<and> processCodeBlocks ''</code>`x`'' = Some ''</code><code>x</code>''
   \<and> (\<forall>html pos. insideCodeBlock html pos \<noteq> Some True)"
proof (intro conjI allI)
  show "processCodeBlocks ''`a``b`'' = Some ''<code>a</code><code>b</code>''" by code_simp
  show "processCodeBlocks ''</code>`x`'' = Some ''</code><code>x</code>''" by code_simp
  show "insideCodeBlock html pos \<noteq> Some True" for html pos by (rule insideCodeBlock_never)
qed

text \<open>
  Claim C5, as the code has it: a three-line pipe table (a header row and a data row that
  begin and end with \<open>|\<close>, and between them a line of \<open>|\<close>, \<open>-\<close> and spaces) renders to
  exactly the opening of one table, the row that \<open>processTableRow\<close> makes of the header
  row, the row it makes of the data row, and the closing of the table, each of the two rows
  a \<open><tr>\<close> of \<open><td>\<close> cells; nothing is written for the separator line.
\<close>

theorem processTables_three_line_table:
  assumes "isTableRow headerRow" and "isTableRow dataRow" and "isSeparator separator"
    and "CHR 0x0A \<notin> set headerRow" and "CHR 0x0A \<notin> set dataRow"
  shows "\<exists>headerCells dataCells.
      processTableRow headerRow
        = Some (trOpen @ concat (map (\<lambda>c. tdOpen @ c @ tdClose) headerCells) @ trClose)
    \<and> processTableRow dataRow
        = Some (trOpen @ concat (map (\<lambda>c. tdOpen @ c @ tdClose) dataCells) @ trClose)
    \<and> processTables (headerRow @ [CHR 0x0A] @ separator @ [CHR 0x0A] @ dataRow)
        = Some (tableOpen
                @ trOpen @ concat (map (\<lambda>c. tdOpen @ c @ tdClose) headerCells) @ trClose
                @ trOpen @ concat (map (\<lambda>c. tdOpen @ c @ tdClose) dataCells) @ trClose
                @ tableClose)"
proof -
  from processTableRow_tr obtain hs where h: "processTableRow headerRow
     = Some (trOpen @ concat (map (\<lambda>c. tdOpen @ c @ tdClose) hs) @ trClose)" ..
  from processTableRow_tr obtain ds where d: "processTableRow dataRow
     = Some (trOpen @ concat (map (\<lambda>c. tdOpen @ c @ tdClose) ds) @ trClose)" ..
  from assms(2) have ne: "dataRow \<noteq> []" by (simp add: isTableRow_def)
  have g: "getlines (headerRow @ [CHR 0x0A] @ separator @ [CHR 0x0A] @ dataRow)
      = [headerRow, separator, dataRow]"
    by (rule getlines_three[OF assms(4) isSeparator_no_newline[OF assms(3)] assms(5) ne])
  let ?h = "trOpen @ concat (map (\<lambda>c. tdOpen @ c @ tdClose) hs) @ trClose"
  let ?d = "trOpen @ concat (map (\<lambda>c. tdOpen @ c @ tdClose) ds) @ trClose"
  have "tableLoop [headerRow, separator, dataRow] False []
      = tableLoop [dataRow] True (tableOpen @ ?h)"
    using assms(1,3) h by (simp add: tableLoop.simps(2))
  also have "\<dots> = tableLoop [] True ((tableOpen @ ?h) @ ?d)"
    using assms(2) d by (simp add: tableLoop.simps(2))
  also have "\<dots> = Some (((tableOpen @ ?h) @ ?d) @ tableClose)"
    by (simp add: tableLoop.simps(1))
  finally have "tableLoop [headerRow, separator, dataRow] False []
      = Some (tableOpen @ ?h @ ?d @ tableClose)" by simp
  then have "processTables (headerRow @ [CHR 0x0A] @ separator @ [CHR 0x0A] @ dataRow)
      = Some (tableOpen @ ?h @ ?d @ tableClose)"
    unfolding processTables_def g .
  then have "processTables (headerRow @ [CHR 0x0A] @ separator @ [CHR 0x0A] @ dataRow)
        = Some (tableOpen
                @ trOpen @ concat (map (\<lambda>c. tdOpen @ c @ tdClose) hs) @ trClose
                @ trOpen @ concat (map (\<lambda>c. tdOpen @ c @ tdClose) ds) @ trClose
                @ tableClose)" by simp
  with h d show ?thesis
    by - (rule exI[where x = hs], rule exI[where x = ds], (rule conjI, assumption)+, assumption)
qed

theorem processTables_three_line_table_witness:
  "processTables (''| A | B |'' @ [CHR 0x0A] @ ''|---|---|'' @ [CHR 0x0A] @ ''| 1 | 2 |'')
     = Some (tableOpen @ ''<tr><td>A</td><td>B</td></tr>'' @ ''<tr><td>1</td><td>2</td></tr>''
             @ tableClose)"
proof -
  have "isTableRow ''| A | B |''" and "isTableRow ''| 1 | 2 |''" and "isSeparator ''|---|---|''"
    and "CHR 0x0A \<notin> set ''| A | B |''" and "CHR 0x0A \<notin> set ''| 1 | 2 |''"
    by (simp_all add: isTableRow_def isSeparator_def)
  from processTables_three_line_table[OF this] obtain hs ds where
    h: "processTableRow ''| A | B |''
        = Some (trOpen @ concat (map (\<lambda>c. tdOpen @ c @ tdClose) hs) @ trClose)"
    and d: "processTableRow ''| 1 | 2 |''
        = Some (trOpen @ concat (map (\<lambda>c. tdOpen @ c @ tdClose) ds) @ trClose)"
    and t: "processTables (''| A | B |'' @ [CHR 0x0A] @ ''|---|---|'' @ [CHR 0x0A] @ ''| 1 | 2 |'')
        = Some (tableOpen
                @ (trOpen @ concat (map (\<lambda>c. tdOpen @ c @ tdClose) hs) @ trClose)
                @ (trOpen @ concat (map (\<lambda>c. tdOpen @ c @ tdClose) ds) @ trClose)
                @ tableClose)"
    by (elim exE conjE) (rule that, assumption, assumption, simp)
  have "processTableRow ''| A | B |'' = Some ''<tr><td>A</td><td>B</td></tr>''" by code_simp
  with h have h': "trOpen @ concat (map (\<lambda>c. tdOpen @ c @ tdClose) hs) @ trClose
      = ''<tr><td>A</td><td>B</td></tr>''" by simp
  have "processTableRow ''| 1 | 2 |'' = Some ''<tr><td>1</td><td>2</td></tr>''" by code_simp
  with d have d': "trOpen @ concat (map (\<lambda>c. tdOpen @ c @ tdClose) ds) @ trClose
      = ''<tr><td>1</td><td>2</td></tr>''" by simp
  show ?thesis unfolding t h' d' ..
qed

text \<open>
  Claim C5 as stated fails: the table of the header row \<open>| A | B |\<close>, the separator and the
  data row \<open>| 1 | 2 |\<close> renders, by \<open>processTables\<close> and by the whole pipeline, to a table
  with two \<open><tr>\<close> rows, not one.
\<close>

theorem three_line_table_counterexample:
  "processTables example_table = Some example_table_html
   \<and> markdownToHtml example_table = Some example_table_html
   \<and> occurrences ''<table'' example_table_html = 1
   \<and> occurrences ''<tr>'' example_table_html = 2"
proof (intro conjI)
  show "processTables example_table = Some example_table_html" by code_simp
  show "markdownToHtml example_table = Some example_table_html" by code_simp
  show "occurrences ''<table'' example_table_html = 1" by code_simp
  show "occurrences ''<tr>'' example_table_html = 2" by code_simp
qed

text \<open>
  Claim C9, as the code has it: the renderer terminates on every input, and the passes
  that work on the text themselves (code fences, double asterisks, tables) return an
  output for every string, however unbalanced its markup.  The renderer returns an output
  string whenever the \<open>std::regex_replace\<close> calls of the heading, list and link passes
  complete: a run on a stack of any depth either fails in one of those calls or returns
  the output of \<open>markdownToHtml\<close>, and every input has a depth from which on the run
  returns it.  No depth is enough for every input: on a stack of depth \<open>d\<close>, a heading line
  of \<open>d\<close> characters makes the first call fail, and the renderer returns no string.
\<close>

theorem markdownToHtml_total_up_to_regex:
  "(\<forall>s. processCodeBlocks s \<noteq> None \<and> processBoldText s \<noteq> None \<and> processTables s \<noteq> None)
   \<and> (\<exists>html. markdownToHtml markdown = Some html
        \<and> (\<forall>d. markdownToHtml_within d markdown = None
               \<or> markdownToHtml_within d markdown = Some html)
        \<and> (\<exists>d. \<forall>d'. d \<le> d' \<longrightarrow> markdownToHtml_within d' markdown = Some html))
   \<and> (\<forall>d. markdownToHtml_within d (''# '' @ replicate d CHR ''a'') = None)"
proof (intro conjI allI)
  fix s
  from processCodeBlocks_total[of s] show "processCodeBlocks s \<noteq> None" by auto
  from processBoldText_total[of s] show "processBoldText s \<noteq> None" by auto
  from processTables_total[of s] show "processTables s \<noteq> None" by auto
next
  from markdownToHtml_Some obtain html where h: "markdownToHtml markdown = Some html" by blast
  have a: "\<forall>d. markdownToHtml_within d markdown = None
               \<or> markdownToHtml_within d markdown = Some html"
  proof
    fix d
    show "markdownToHtml_within d markdown = None \<or> markdownToHtml_within d markdown = Some html"
    proof (cases "markdownToHtml_within d markdown")
      case None
      then show ?thesis by simp
    next
      case (Some out)
      from markdownToHtml_within_sound[OF Some] h Some show ?thesis by simp
    qed
  qed
  from markdownToHtml_within_enough[of markdown] h
  have b: "\<exists>d. \<forall>d'. d \<le> d' \<longrightarrow> markdownToHtml_within d' markdown = Some html" by simp
  from h a b show "\<exists>html. markdownToHtml markdown = Some html
        \<and> (\<forall>d. markdownToHtml_within d markdown = None
               \<or> markdownToHtml_within d markdown = Some html)
        \<and> (\<exists>d. \<forall>d'. d \<le> d' \<longrightarrow> markdownToHtml_within d' markdown = Some html)"
    by - (rule exI[where x = html], (rule conjI, assumption)+, assumption)
next
  fix d
  show "markdownToHtml_within d (''# '' @ replicate d CHR ''a'') = None"
    by (rule markdownToHtml_within_long_heading)
qed

theorem markdownToHtml_total_up_to_regex_witness:
  "(\<exists>d. markdownToHtml_within d ''# Title'' = Some (''<h1>Title</h1>'' @ [CHR 0x0A]))
   \<and> markdownToHtml_within 5 ''# aaaaa'' = None"
proof
  from markdownToHtml_total_up_to_regex[of "''# Title''"] obtain html d
    where a: "markdownToHtml ''# Title'' = Some html"
      and b: "\<forall>d'. d \<le> d' \<longrightarrow> markdownToHtml_within d' ''# Title'' = Some html"
    by blast
  have "markdownToHtml ''# Title'' = Some (''<h1>Title</h1>'' @ [CHR 0x0A])" by code_simp
  with a have "html = ''<h1>Title</h1>'' @ [CHR 0x0A]" by simp
  with b have "markdownToHtml_within d ''# Title'' = Some (''<h1>Title</h1>'' @ [CHR 0x0A])"
    by simp
  then show "\<exists>d. markdownToHtml_within d ''# Title'' = Some (''<h1>Title</h1>'' @ [CHR 0x0A])"
    by - (rule exI[where x = d], assumption)
next
  from markdownToHtml_total_up_to_regex[of "[]"]
  have "markdownToHtml_within 5 (''# '' @ replicate 5 CHR ''a'') = None" by blast
  then show "markdownToHtml_within 5 ''# aaaaa'' = None" by (simp add: numeral_eq_Suc)
qed

text \<open>
  Claim C9 as stated fails: on a stack of depth 40000 the renderer returns the page of a
  short heading, and no string for a heading line of 40000 characters.
\<close>

theorem markdownToHtml_long_heading_counterexample:
  "markdownToHtml_within 40000 ''# a'' = Some (''<h1>a</h1>'' @ [CHR 0x0A])
   \<and> markdownToHtml_within 40000 (''# '' @ replicate 40000 CHR ''a'') = None"
proof
  have "markdownToHtml_within 100 ''# a'' = Some (''<h1>a</h1>'' @ [CHR 0x0A])" by code_simp
  with markdownToHtml_within_mono[of 100 40000]
  show "markdownToHtml_within 40000 ''# a'' = Some (''<h1>a</h1>'' @ [CHR 0x0A])" by simp
  show "markdownToHtml_within 40000 (''# '' @ replicate 40000 CHR ''a'') = None"
    by (rule markdownToHtml_within_long_heading)
qed

text \<open>
  The pipeline on a heading with bold text and inline code, and on unbalanced markup: an
  opening fence with no closing fence (its first two backticks are read as an empty inline
  span), an unpaired \<open>**\<close>, and a table line that does not end with \<open>|\<close>.
\<close>

lemma markdownToHtml_examples:
  "markdownToHtml (''# Title'' @ [CHR 0x0A, CHR 0x0A] @ ''**bold** and `code`'')
     = Some (''<h1>Title</h1>'' @ [CHR 0x0A, CHR 0x0A]
             @ ''<strong>bold</strong> and <code>code</code>'' @ [CHR 0x0A])"
  "markdownToHtml ''```cpp'' = Some (''<code></code>`cpp'' @ [CHR 0x0A])"
  "markdownToHtml ''a **b c'' = Some (''a **b c'' @ [CHR 0x0A])"
  "markdownToHtml ''| a | b'' = Some (''| a | b'' @ [CHR 0x0A])"
  by code_simp+

end
